theory Spec2Isabelle
  imports Main "HOL-Library.Log_Nat"
begin

section \<open>Double-precision values\<close>

text \<open>
  The kernels of \<^verbatim>\<open>fast_kernels.cpp\<close> compute on C++ \<^verbatim>\<open>double\<close>. A double is modelled by
  its IEEE-754 binary64 meaning: a finite number (its exact rational value), the negative
  zero, the two infinities, or a NaN. \<open>Fin 0\<close> is the positive zero. Every arithmetic
  operation computes the exact rational result and rounds it once, to the nearest
  representable value, ties to the even significand (the default rounding mode); no
  operation keeps excess precision and no multiplication is fused with an addition. The
  kernels never look at the sign or the payload of a NaN, so there is one NaN.

  The type also holds \<open>Fin q\<close> for a rational \<open>q\<close> that no binary64 represents;
  \<open>is_double\<close> below tells the values that are doubles. The operations return doubles
  (\<open>is_double_rnd\<close>), and a statement proved for every value of the type holds for every
  double.
\<close>

datatype double = Fin rat | NegZero | PInf | NInf | NaN

definition isfinite :: "double \<Rightarrow> bool" where
  "isfinite d = (case d of Fin _ \<Rightarrow> True | NegZero \<Rightarrow> True | _ \<Rightarrow> False)"

definition isnan :: "double \<Rightarrow> bool" where
  "isnan d = (d = NaN)"

definition valof :: "double \<Rightarrow> rat" where
  "valof d = (case d of Fin q \<Rightarrow> q | _ \<Rightarrow> 0)"

definition signbit :: "double \<Rightarrow> bool" where
  "signbit d = (case d of Fin q \<Rightarrow> q < 0 | NegZero \<Rightarrow> True | NInf \<Rightarrow> True | _ \<Rightarrow> False)"

definition cls :: "double \<Rightarrow> int" where
  \<comment> \<open>position on the extended line: below, among, or above the finite numbers\<close>
  "cls d = (case d of NInf \<Rightarrow> - 1 | PInf \<Rightarrow> 1 | _ \<Rightarrow> 0)"

definition flt :: "double \<Rightarrow> double \<Rightarrow> bool" where
  \<comment> \<open>\<^verbatim>\<open>a < b\<close>: false as soon as one side is a NaN; the two zeros are equal\<close>
  "flt a b = (\<not> isnan a \<and> \<not> isnan b \<and> (cls a < cls b \<or> cls a = cls b \<and> valof a < valof b))"

definition fle :: "double \<Rightarrow> double \<Rightarrow> bool" where
  \<comment> \<open>\<^verbatim>\<open>a <= b\<close>\<close>
  "fle a b = (\<not> isnan a \<and> \<not> isnan b \<and> (cls a < cls b \<or> cls a = cls b \<and> valof a \<le> valof b))"

definition feq :: "double \<Rightarrow> double \<Rightarrow> bool" where
  \<comment> \<open>\<^verbatim>\<open>a == b\<close>\<close>
  "feq a b = (\<not> isnan a \<and> \<not> isnan b \<and> cls a = cls b \<and> valof a = valof b)"

definition fgt :: "double \<Rightarrow> double \<Rightarrow> bool" where
  \<comment> \<open>\<^verbatim>\<open>a > b\<close>\<close>
  "fgt a b = flt b a"

subsection \<open>Rounding to nearest, ties to even\<close>

definition ilog2 :: "rat \<Rightarrow> int" where
  \<comment> \<open>for \<open>0 < q\<close>, the integer \<open>e\<close> with \<open>2 powi e \<le> q < 2 powi (e + 1)\<close>\<close>
  "ilog2 q = (if 1 \<le> q then bitlen \<lfloor>q\<rfloor> - 1 else - bitlen (\<lceil>1 / q\<rceil> - 1))"

definition ulp_exp :: "rat \<Rightarrow> int" where
  \<comment> \<open>exponent of the last place of a positive magnitude: 53 significant bits, and no
      finer than the subnormal spacing \<open>2 powi - 1074\<close>\<close>
  "ulp_exp q = max (ilog2 q - 52) (- 1074)"

definition rhe :: "rat \<Rightarrow> int" where
  \<comment> \<open>nearest integer, a tie going to the even one\<close>
  "rhe x = (let f = \<lfloor>x\<rfloor>; d = x - of_int f in
            if d < 1 / 2 then f else if 1 / 2 < d then f + 1
            else if even f then f else f + 1)"

definition rnd_mag :: "rat \<Rightarrow> rat option" where
  \<comment> \<open>a positive magnitude rounded to 53 bits; \<open>None\<close> is overflow past the largest
      finite double\<close>
  "rnd_mag q = (let e = ulp_exp q; m = rhe (q / 2 powi e) in
                 if 971 < e \<or> (e = 971 \<and> 2 ^ 53 \<le> m) then None
                 else Some (of_int m * 2 powi e))"

definition rnd :: "rat \<Rightarrow> double" where
  "rnd q = (if q = 0 then Fin 0
            else if 0 < q then (case rnd_mag q of None \<Rightarrow> PInf | Some v \<Rightarrow> Fin v)
            else (case rnd_mag (- q) of None \<Rightarrow> NInf
                  | Some v \<Rightarrow> if v = 0 then NegZero else Fin (- v)))"

definition is_double :: "double \<Rightarrow> bool" where
  \<comment> \<open>the value is one a binary64 can hold\<close>
  "is_double d = (case d of Fin q \<Rightarrow> rnd q = Fin q | _ \<Rightarrow> True)"

subsection \<open>Arithmetic\<close>

definition signed_zero :: "bool \<Rightarrow> double" where
  "signed_zero s = (if s then NegZero else Fin 0)"

definition signed_inf :: "bool \<Rightarrow> double" where
  "signed_inf s = (if s then NInf else PInf)"

definition fadd :: "double \<Rightarrow> double \<Rightarrow> double" where
  \<comment> \<open>\<^verbatim>\<open>a + b\<close>\<close>
  "fadd a b =
     (if isnan a \<or> isnan b then NaN
      else if isfinite a \<and> isfinite b then
        (if a = NegZero \<and> b = NegZero then NegZero else rnd (valof a + valof b))
      else if isfinite b then a
      else if isfinite a then b
      else if a = b then a else NaN)"

definition fmul :: "double \<Rightarrow> double \<Rightarrow> double" where
  \<comment> \<open>\<^verbatim>\<open>a * b\<close>\<close>
  "fmul a b =
     (let s = (signbit a \<noteq> signbit b) in
      if isnan a \<or> isnan b then NaN
      else if isfinite a \<and> isfinite b then
        (if valof a * valof b = 0 then signed_zero s else rnd (valof a * valof b))
      else if (isfinite a \<and> valof a = 0) \<or> (isfinite b \<and> valof b = 0) then NaN
      else signed_inf s)"

definition fdiv :: "double \<Rightarrow> double \<Rightarrow> double" where
  \<comment> \<open>\<^verbatim>\<open>a / b\<close>\<close>
  "fdiv a b =
     (let s = (signbit a \<noteq> signbit b) in
      if isnan a \<or> isnan b then NaN
      else if isfinite a \<and> isfinite b then
        (if valof b = 0 then (if valof a = 0 then NaN else signed_inf s)
         else if valof a = 0 then signed_zero s
         else rnd (valof a / valof b))
      else if isfinite b then signed_inf s
      else if isfinite a then signed_zero s
      else NaN)"

definition of_size :: "nat \<Rightarrow> double" where
  \<comment> \<open>\<^verbatim>\<open>static_cast<double>(n)\<close> of a \<^verbatim>\<open>std::size_t\<close>\<close>
  "of_size n = rnd (of_nat n)"

definition round_half_away :: "rat \<Rightarrow> int" where
  "round_half_away q = (if 0 \<le> q then \<lfloor>q + 1 / 2\<rfloor> else - \<lfloor>- q + 1 / 2\<rfloor>)"

definition llround :: "double \<Rightarrow> int" where
  \<comment> \<open>\<^verbatim>\<open>std::llround\<close>: nearest integer, halfway cases away from zero. C leaves the
      result on a NaN or an infinity unspecified; it is 0 here. The kernels call it on
      the product of a ratio in [0, 0.5] and a vector size only.\<close>
  "llround d = (if isfinite d then round_half_away (valof d) else 0)"

section \<open>The kernels\<close>

text \<open>
  A \<^verbatim>\<open>std::vector<double>\<close> is a list; \<^verbatim>\<open>std::size_t\<close> is \<open>nat\<close>: a vector of doubles
  has fewer than \<open>2 ^ 61\<close> elements, and every size the kernels compute is at most the
  size of their argument, so no size wraps around. A C++ exception is a value
  \<open>Inl\<close>; reading a vector with \<^verbatim>\<open>operator[]\<close> outside its bounds, which C++ leaves
  undefined, is the error \<open>OutOfBounds\<close>.
\<close>

datatype error = InvalidArgument string | OutOfBounds

definition remove_if :: "('a \<Rightarrow> bool) \<Rightarrow> 'a list \<Rightarrow> 'a list" where
  \<comment> \<open>\<^verbatim>\<open>v.erase(std::remove_if(v.begin(), v.end(), p), v.end())\<close>: the elements that
      do not satisfy \<open>p\<close>, in their order\<close>
  "remove_if p v = filter (\<lambda>x. \<not> p x) v"

definition filter_finite :: "double list \<Rightarrow> double list" where
  "filter_finite v = remove_if (\<lambda>x. \<not> isfinite x) v"

definition accumulate :: "double list \<Rightarrow> double \<Rightarrow> double" where
  \<comment> \<open>\<^verbatim>\<open>std::accumulate(v.begin(), v.end(), init)\<close>: \<^verbatim>\<open>init = init + x\<close>, front to back\<close>
  "accumulate v init = foldl fadd init v"

definition mean :: "double list \<Rightarrow> double" where
  "mean v = (if v = [] then NaN
             else let s = accumulate v (Fin 0) in fdiv s (of_size (length v)))"

definition std_sort :: "double list \<Rightarrow> double list" where
  \<comment> \<open>\<^verbatim>\<open>std::sort(v.begin(), v.end())\<close> on finite values: ascending by \<^verbatim>\<open><\<close>. The two
      zeros compare equal and \<^verbatim>\<open>std::sort\<close> may leave them in either order; this
      sort keeps their order.\<close>
  "std_sort v = sort_key valof v"

function trim_loop :: "double list \<Rightarrow> nat \<Rightarrow> nat \<Rightarrow> nat \<Rightarrow> double \<Rightarrow> nat \<Rightarrow> error + double \<times> nat" where
  \<comment> \<open>\<^verbatim>\<open>for (i = k; i < n - k; ++i) { s += v[i]; ++cnt; }\<close>, from the state \<open>(i, s, cnt)\<close>.
      The loop is entered with \<open>2 * k < n\<close> only, so \<open>n - k\<close> does not wrap around.\<close>
  "trim_loop v n k i s cnt =
     (if i < n - k then
        (if i < length v then trim_loop v n k (i + 1) (fadd s (v ! i)) (cnt + 1)
         else Inl OutOfBounds)
      else Inr (s, cnt))"
  by pat_completeness auto
termination
  by (relation "measure (\<lambda>(v, n, k, i, s, cnt). n - k - i)") auto

declare trim_loop.simps [simp del]

definition clamp_ratio :: "double \<Rightarrow> double" where
  "clamp_ratio trim_ratio =
     (let r = (if isfinite trim_ratio then trim_ratio else Fin 0);
          r = (if flt r (Fin 0) then Fin 0 else r);
          r = (if fgt r (Fin (1 / 2)) then Fin (1 / 2) else r)
      in r)"

definition trim_count :: "double \<Rightarrow> nat \<Rightarrow> nat" where
  \<comment> \<open>\<^verbatim>\<open>static_cast<std::size_t>(std::llround(r * static_cast<double>(n)))\<close>\<close>
  "trim_count r n = nat (llround (fmul r (of_size n)))"

definition trimmed_mean :: "double list \<Rightarrow> double \<Rightarrow> bool \<Rightarrow> error + double" where
  "trimmed_mean v0 trim_ratio assume_sorted =
     (let v = filter_finite v0 in
      if v = [] then Inr NaN
      else
        let v = (if \<not> assume_sorted then std_sort v else v);
            r = clamp_ratio trim_ratio;
            n = length v;
            k = trim_count r n
        in if n \<le> 2 * k then Inr (mean v)
           else case trim_loop v n k k (Fin 0) 0 of
                  Inl e \<Rightarrow> Inl e
                | Inr (s, cnt) \<Rightarrow> Inr (fdiv s (of_size (if 0 < cnt then cnt else 1))))"

definition clip_weights :: "double list \<Rightarrow> double list" where
  "clip_weights w = map (\<lambda>x. if \<not> isfinite x \<or> flt x (Fin 0) then Fin 0 else x) w"

definition normalize_weights :: "double list \<Rightarrow> double \<Rightarrow> double list" where
  \<comment> \<open>\<^verbatim>\<open>for (auto& x : w) x /= s;\<close>\<close>
  "normalize_weights w s = map (\<lambda>x. fdiv x s) w"

function dot_loop :: "double list \<Rightarrow> double list \<Rightarrow> nat \<Rightarrow> double \<Rightarrow> error + double" where
  \<comment> \<open>\<^verbatim>\<open>for (i = 0; i < v.size(); ++i) dot += v[i] * w[i];\<close>, from the state \<open>(i, dot)\<close>\<close>
  "dot_loop v w i dot =
     (if i < length v then
        (if i < length w then dot_loop v w (i + 1) (fadd dot (fmul (v ! i) (w ! i)))
         else Inl OutOfBounds)
      else Inr dot)"
  by pat_completeness auto
termination
  by (relation "measure (\<lambda>(v, w, i, dot). length v - i)") auto

declare dot_loop.simps [simp del]

definition sorted_weighted_mean :: "double list \<Rightarrow> double list \<Rightarrow> bool \<Rightarrow> error + double" where
  "sorted_weighted_mean v0 w0 assume_sorted =
     (let v = filter_finite v0 in
      if v = [] then Inr NaN
      else
        let v = (if \<not> assume_sorted then std_sort v else v);
            w = clip_weights w0
        in if length w \<noteq> length v then
             Inl (InvalidArgument ''weights length must match values length'')
           else
             let s = accumulate w (Fin 0) in
             if fle s (Fin 0) then Inr (mean v)
             else
               let w = normalize_weights w s
               in dot_loop v w 0 (Fin 0))"

section \<open>Properties of rounding\<close>

subsection \<open>The binary exponent\<close>

lemma ilog2_bounds:
  assumes "0 < q"
  shows "2 powi ilog2 q \<le> q" and "q < 2 powi (ilog2 q + 1)"
proof -
  have "2 powi ilog2 q \<le> q \<and> q < 2 powi (ilog2 q + 1)"
  proof (cases "1 \<le> q")
    case True
    define n where "n = \<lfloor>q\<rfloor>"
    have n1: "1 \<le> n" using True by (simp add: n_def le_floor_iff)
    then have npos: "0 < n" by simp
    have b1: "1 \<le> bitlen n" using npos bitlen_eq_zero_iff [of n] bitlen_nonneg [of n] by linarith
    have lo: "2 ^ nat (bitlen n - 1) \<le> n" and hi: "n < 2 ^ nat (bitlen n)"
      using bitlen_bounds [OF npos] by simp_all
    have il: "ilog2 q = bitlen n - 1" using True by (simp add: ilog2_def n_def)
    have "(2::rat) powi (bitlen n - 1) = 2 ^ nat (bitlen n - 1)"
      using b1 by (simp add: power_int_def)
    also have "\<dots> = of_int (2 ^ nat (bitlen n - 1))" by simp
    also have "\<dots> \<le> of_int n" using lo by (simp only: of_int_le_iff)
    also have "\<dots> \<le> q" by (simp add: n_def)
    finally have A: "2 powi ilog2 q \<le> q" by (simp add: il)
    have "n + 1 \<le> 2 ^ nat (bitlen n)" using hi by simp
    then have "(of_int (n + 1) :: rat) \<le> of_int (2 ^ nat (bitlen n))"
      by (simp only: of_int_le_iff)
    moreover have "q < of_int (n + 1)" using floor_correct [of q] by (simp add: n_def)
    ultimately have "q < of_int (2 ^ nat (bitlen n))" by linarith
    also have "\<dots> = 2 powi (bitlen n)" using b1 by (simp add: power_int_def)
    finally have B: "q < 2 powi (ilog2 q + 1)" by (simp add: il)
    show ?thesis using A B by simp
  next
    case False
    define p where "p = 1 / q"
    define m where "m = \<lceil>p\<rceil> - 1"
    have p1: "1 < p" using False assms by (simp add: p_def)
    have mp: "of_int m < p" by (simp add: m_def) linarith
    have pm: "p \<le> of_int (m + 1)" by (simp add: m_def)
    have "1 < \<lceil>p\<rceil>" using p1 by (simp add: less_ceiling_iff)
    then have mpos: "0 < m" by (simp add: m_def)
    have b1: "1 \<le> bitlen m" using mpos bitlen_eq_zero_iff [of m] bitlen_nonneg [of m] by linarith
    have lo: "2 ^ nat (bitlen m - 1) \<le> m" and hi: "m < 2 ^ nat (bitlen m)"
      using bitlen_bounds [OF mpos] by simp_all
    have il: "ilog2 q = - bitlen m" using False by (simp add: ilog2_def m_def p_def)
    have "m + 1 \<le> 2 ^ nat (bitlen m)" using hi by simp
    then have "(of_int (m + 1) :: rat) \<le> of_int (2 ^ nat (bitlen m))"
      by (simp only: of_int_le_iff)
    then have "p \<le> of_int (2 ^ nat (bitlen m))" using pm by linarith
    also have "\<dots> = 2 powi (bitlen m)" using b1 by (simp add: power_int_def)
    finally have "1 / q \<le> 2 powi (bitlen m)" by (simp add: p_def)
    then have "1 \<le> 2 powi (bitlen m) * q" using assms by (simp add: field_simps)
    then have "2 powi (- bitlen m) * 1 \<le> 2 powi (- bitlen m) * (2 powi (bitlen m) * q)"
      by (intro mult_left_mono) simp_all
    then have A: "2 powi ilog2 q \<le> q"
      by (simp add: il power_int_minus field_simps)
    have "(of_int (2 ^ nat (bitlen m - 1)) :: rat) \<le> of_int m"
      using lo by (simp only: of_int_le_iff)
    then have "(of_int (2 ^ nat (bitlen m - 1)) :: rat) < p" using mp by linarith
    moreover have "(of_int (2 ^ nat (bitlen m - 1)) :: rat) = 2 powi (bitlen m - 1)"
      using b1 by (simp add: power_int_def)
    ultimately have "2 powi (bitlen m - 1) < 1 / q" by (simp add: p_def)
    then have "2 powi (bitlen m - 1) * q < 1" using assms by (simp add: field_simps)
    then have "2 powi (1 - bitlen m) * (2 powi (bitlen m - 1) * q) < 2 powi (1 - bitlen m) * 1"
      by (intro mult_strict_left_mono) simp_all
    moreover have "(2::rat) powi (1 - bitlen m) * 2 powi (bitlen m - 1) = 1"
      by (simp add: power_int_add [symmetric])
    ultimately have "q < 2 powi (1 - bitlen m)"
      by (simp add: mult.assoc [symmetric])
    then have B: "q < 2 powi (ilog2 q + 1)" by (simp add: il add.commute)
    show ?thesis using A B by simp
  qed
  then show "2 powi ilog2 q \<le> q" and "q < 2 powi (ilog2 q + 1)" by simp_all
qed

lemma pow2_mono: "a \<le> b \<Longrightarrow> (2::rat) powi a \<le> 2 powi b"
  by (rule power_int_increasing) simp_all

lemma pow2_less_imp: "(2::rat) powi a < 2 powi b \<Longrightarrow> a < b"
  using pow2_mono [of b a] by (cases "a < b") simp_all

lemma ilog2_unique:
  assumes "2 powi e \<le> q" and "q < 2 powi (e + 1)"
  shows "ilog2 q = e"
proof -
  have qpos: "0 < q" using assms(1) zero_less_power_int [of "2::rat" e] by linarith
  have "2 powi e < (2::rat) powi (ilog2 q + 1)"
    using assms(1) ilog2_bounds(2) [OF qpos] by linarith
  then have "e < ilog2 q + 1" by (rule pow2_less_imp)
  moreover have "2 powi ilog2 q < (2::rat) powi (e + 1)"
    using assms(2) ilog2_bounds(1) [OF qpos] by linarith
  then have "ilog2 q < e + 1" by (rule pow2_less_imp)
  ultimately show ?thesis by simp
qed

lemma ilog2_mono:
  assumes "0 < p" and "p \<le> q"
  shows "ilog2 p \<le> ilog2 q"
proof -
  have "2 powi ilog2 p < (2::rat) powi (ilog2 q + 1)"
    using ilog2_bounds(1) [OF assms(1)] ilog2_bounds(2) [of q] assms by linarith
  then have "ilog2 p < ilog2 q + 1" by (rule pow2_less_imp)
  then show ?thesis by simp
qed

subsection \<open>Rounding a magnitude\<close>

lemma pow2_pos [simp]: "0 < (2::rat) powi e"
  by simp

lemma pow2_add: "(2::rat) powi (a + b) = 2 powi a * 2 powi b"
  by (simp add: power_int_add)

lemma pow2_nat: "0 \<le> e \<Longrightarrow> (2::rat) powi e = of_int (2 ^ nat e)"
  by (simp add: power_int_def)

lemma rhe_of_int [simp]: "rhe (of_int n) = n"
  by (simp add: rhe_def)

lemma rhe_ge: "of_int n \<le> x \<Longrightarrow> n \<le> rhe x"
proof -
  assume "of_int n \<le> x"
  then have "n \<le> \<lfloor>x\<rfloor>" by (simp add: le_floor_iff)
  moreover have "\<lfloor>x\<rfloor> \<le> rhe x" by (simp add: rhe_def Let_def)
  ultimately show ?thesis by linarith
qed

lemma rhe_le: "x \<le> of_int n \<Longrightarrow> rhe x \<le> n"
proof (cases "x = of_int n")
  case True
  then show ?thesis by simp
next
  case False
  assume "x \<le> of_int n"
  with False have "x < of_int n" by simp
  then have "\<lfloor>x\<rfloor> < n" by (simp add: floor_less_iff)
  moreover have "rhe x \<le> \<lfloor>x\<rfloor> + 1" by (simp add: rhe_def Let_def)
  ultimately show ?thesis by linarith
qed

lemma ulp_exp_ge: "- 1074 \<le> ulp_exp q"
  by (simp add: ulp_exp_def)

lemma ulp_exp_mono: "0 < p \<Longrightarrow> p \<le> q \<Longrightarrow> ulp_exp p \<le> ulp_exp q"
  using ilog2_mono [of p q] by (simp add: ulp_exp_def)

lemma ulp_upper:
  assumes "0 < q"
  shows "q < 2 powi (ulp_exp q + 53)"
proof -
  have "ilog2 q + 1 \<le> ulp_exp q + 53" by (simp add: ulp_exp_def)
  then have "(2::rat) powi (ilog2 q + 1) \<le> 2 powi (ulp_exp q + 53)" by (rule pow2_mono)
  then show ?thesis using ilog2_bounds(2) [OF assms] by linarith
qed

lemma ulp_lower:
  assumes "0 < q" and "- 1074 < ulp_exp q"
  shows "2 powi (ulp_exp q + 52) \<le> q"
proof -
  have "ulp_exp q = ilog2 q - 52" using assms(2) by (simp add: ulp_exp_def max_def split: if_splits)
  then show ?thesis using ilog2_bounds(1) [OF assms(1)] by simp
qed

lemma scaled_upper:
  assumes "0 < q"
  shows "q / 2 powi ulp_exp q < 2 ^ 53"
proof -
  have "q < 2 powi 53 * 2 powi ulp_exp q"
    using ulp_upper [OF assms] by (simp add: pow2_add mult.commute)
  then show ?thesis by (simp add: pos_divide_less_eq)
qed

lemma scaled_lower:
  assumes "0 < q" and "- 1074 < ulp_exp q"
  shows "2 ^ 52 \<le> q / 2 powi ulp_exp q"
proof -
  have "2 powi 52 * 2 powi ulp_exp q \<le> q"
    using ulp_lower [OF assms] by (simp add: pow2_add mult.commute)
  then show ?thesis by (simp add: pos_le_divide_eq)
qed

lemma rhe_scaled_upper:
  assumes "0 < q"
  shows "rhe (q / 2 powi ulp_exp q) \<le> 2 ^ 53"
proof -
  have "q / 2 powi ulp_exp q \<le> of_int (2 ^ 53)" using scaled_upper [OF assms] by simp
  then show ?thesis by (rule rhe_le)
qed

lemma rhe_scaled_lower:
  assumes "0 < q" and "- 1074 < ulp_exp q"
  shows "2 ^ 52 \<le> rhe (q / 2 powi ulp_exp q)"
proof -
  have "of_int (2 ^ 52) \<le> q / 2 powi ulp_exp q" using scaled_lower [OF assms] by simp
  then show ?thesis by (rule rhe_ge)
qed

lemma rhe_scaled_nonneg:
  assumes "0 < q"
  shows "0 \<le> rhe (q / 2 powi ulp_exp q)"
proof -
  have "of_int 0 \<le> q / 2 powi ulp_exp q" using assms by simp
  then show ?thesis by (rule rhe_ge)
qed

lemma rnd_mag_SomeD:
  assumes "rnd_mag q = Some v"
  shows "v = of_int (rhe (q / 2 powi ulp_exp q)) * 2 powi ulp_exp q"
    and "ulp_exp q \<le> 971"
    and "ulp_exp q = 971 \<Longrightarrow> rhe (q / 2 powi ulp_exp q) < 2 ^ 53"
  using assms by (auto simp: rnd_mag_def Let_def split: if_splits)

lemma rnd_mag_SomeI:
  assumes "ulp_exp q < 971 \<or> (ulp_exp q = 971 \<and> rhe (q / 2 powi ulp_exp q) < 2 ^ 53)"
  shows "rnd_mag q = Some (of_int (rhe (q / 2 powi ulp_exp q)) * 2 powi ulp_exp q)"
  using assms by (auto simp: rnd_mag_def Let_def)

lemma rnd_mag_nonneg:
  assumes "0 < q" and "rnd_mag q = Some v"
  shows "0 \<le> v"
  using rhe_scaled_nonneg [OF assms(1)] rnd_mag_SomeD(1) [OF assms(2)] by simp

text \<open>A number with at most 53 significant bits and an exponent in range rounds to itself.\<close>

lemma ilog2_scaled:
  assumes "0 < m"
  shows "ilog2 (of_int m * 2 powi e) = bitlen m - 1 + e"
proof (rule ilog2_unique)
  have b1: "1 \<le> bitlen m" using assms bitlen_eq_zero_iff [of m] bitlen_nonneg [of m] by linarith
  have lo: "2 ^ nat (bitlen m - 1) \<le> m" and hi: "m < 2 ^ nat (bitlen m)"
    using bitlen_bounds [OF assms] by simp_all
  have "(2::rat) powi (bitlen m - 1) = of_int (2 ^ nat (bitlen m - 1))"
    using b1 by (simp add: pow2_nat)
  also have "\<dots> \<le> of_int m" using lo by (simp only: of_int_le_iff)
  finally have "2 powi (bitlen m - 1) * 2 powi e \<le> of_int m * (2::rat) powi e"
    by (intro mult_right_mono) simp_all
  then show "2 powi (bitlen m - 1 + e) \<le> of_int m * (2::rat) powi e"
    by (simp add: pow2_add)
  have "(of_int m :: rat) < of_int (2 ^ nat (bitlen m))" using hi by (simp only: of_int_less_iff)
  also have "\<dots> = 2 powi (bitlen m)" using b1 by (simp add: pow2_nat)
  finally have "of_int m * 2 powi e < 2 powi (bitlen m) * (2::rat) powi e"
    by (intro mult_strict_right_mono) simp_all
  then show "of_int m * (2::rat) powi e < 2 powi (bitlen m - 1 + e + 1)"
    by (simp add: pow2_add)
qed

lemma bitlen_le_53:
  assumes "0 < m" and "m < 2 ^ 53"
  shows "bitlen m \<le> 53"
proof (rule ccontr)
  assume "\<not> bitlen m \<le> 53"
  then have "54 \<le> bitlen m" by simp
  then have "(53::nat) \<le> nat (bitlen m - 1)" by simp
  then have "(2::int) ^ 53 \<le> 2 ^ nat (bitlen m - 1)" by (intro power_increasing) simp_all
  then show False using bitlen_bounds [OF assms(1)] assms(2) by linarith
qed

lemma rnd_mag_exact:
  assumes "0 < m" and "m < 2 ^ 53" and "- 1074 \<le> e" and "e \<le> 971"
  shows "rnd_mag (of_int m * 2 powi e) = Some (of_int m * 2 powi e)"
proof -
  define q :: rat where "q = of_int m * 2 powi e"
  define e' where "e' = ulp_exp q"
  have e': "e' = max (bitlen m + e - 53) (- 1074)"
    using ilog2_scaled [OF assms(1), of e] by (simp add: e'_def ulp_exp_def q_def)
  have le: "e' \<le> e" using bitlen_le_53 [OF assms(1,2)] assms(3) by (simp add: e')
  have "2 powi e = (2::rat) powi (e - e') * 2 powi e'" by (simp add: pow2_add [symmetric])
  then have sc: "q / 2 powi e' = of_int (m * 2 ^ nat (e - e'))"
    using le by (simp add: q_def pow2_nat)
  have r: "rhe (q / 2 powi e') = m * 2 ^ nat (e - e')" by (simp only: sc rhe_of_int)
  have inv: "of_int (m * 2 ^ nat (e - e')) * 2 powi e' = q"
    using sc by (simp add: field_simps)
  have "e' < 971 \<or> (e' = 971 \<and> rhe (q / 2 powi e') < 2 ^ 53)"
  proof (cases "e' < 971")
    case False
    then have "e' = 971" "e = e'" using le assms(4) by simp_all
    then show ?thesis using r assms(2) by simp
  qed simp
  then have "rnd_mag q = Some (of_int (rhe (q / 2 powi e')) * 2 powi e')"
    unfolding e'_def by (rule rnd_mag_SomeI)
  then show ?thesis using r inv by (simp add: q_def)
qed

text \<open>
  A magnitude is representable when rounding leaves it alone. Rounding to nearest never
  steps over a representable magnitude, in either direction, and its result is
  representable.
\<close>

lemma rep_scaled:
  assumes "rnd_mag y = Some y"
  shows "y / 2 powi ulp_exp y = of_int (rhe (y / 2 powi ulp_exp y))"
proof -
  have "y = of_int (rhe (y / 2 powi ulp_exp y)) * 2 powi ulp_exp y"
    using rnd_mag_SomeD(1) [OF assms] .
  then have "y / 2 powi ulp_exp y =
      of_int (rhe (y / 2 powi ulp_exp y)) * 2 powi ulp_exp y / 2 powi ulp_exp y"
    by simp
  then show ?thesis by simp
qed

lemma rnd_mag_ge:
  assumes "0 < y" and "y \<le> q" and "rnd_mag y = Some y" and "rnd_mag q = Some v"
  shows "y \<le> v"
proof -
  define e where "e = ulp_exp q"
  have qpos: "0 < q" using assms by linarith
  have v: "v = of_int (rhe (q / 2 powi e)) * 2 powi e"
    using rnd_mag_SomeD(1) [OF assms(4)] by (simp add: e_def)
  have ey: "ulp_exp y \<le> e" using ulp_exp_mono [OF assms(1,2)] by (simp add: e_def)
  show ?thesis
  proof (cases "ulp_exp y = e")
    case True
    define my where "my = rhe (y / 2 powi e)"
    have ym: "y / 2 powi e = of_int my" using rep_scaled [OF assms(3)] True by (simp add: my_def)
    have "y / 2 powi e \<le> q / 2 powi e" using assms(2) by (simp add: divide_right_mono)
    then have "of_int my \<le> q / 2 powi e" using ym by simp
    then have "my \<le> rhe (q / 2 powi e)" by (rule rhe_ge)
    then have "(of_int my :: rat) \<le> of_int (rhe (q / 2 powi e))" by (simp only: of_int_le_iff)
    then have "of_int my * 2 powi e \<le> v" unfolding v by (intro mult_right_mono) simp_all
    moreover have "y = of_int my * 2 powi e" using ym by (simp add: field_simps)
    ultimately show ?thesis by simp
  next
    case False
    then have lt: "ulp_exp y + 1 \<le> e" using ey by simp
    then have "- 1074 < ulp_exp q" using ulp_exp_ge [of y] by (simp add: e_def)
    then have "2 ^ 52 \<le> rhe (q / 2 powi e)" using rhe_scaled_lower [OF qpos] by (simp add: e_def)
    then have "(of_int (2 ^ 52) :: rat) \<le> of_int (rhe (q / 2 powi e))" by (simp only: of_int_le_iff)
    then have "of_int (2 ^ 52) * 2 powi e \<le> v" unfolding v by (intro mult_right_mono) simp_all
    then have big: "2 powi (e + 52) \<le> v" by (simp add: pow2_add mult.commute)
    have "ulp_exp y + 53 \<le> e + 52" using lt by simp
    then have "(2::rat) powi (ulp_exp y + 53) \<le> 2 powi (e + 52)" by (rule pow2_mono)
    then show ?thesis using ulp_upper [OF assms(1)] big by linarith
  qed
qed

lemma rnd_mag_le:
  assumes "0 < q" and "q \<le> y" and "rnd_mag y = Some y"
  shows "\<exists>v. rnd_mag q = Some v \<and> v \<le> y"
proof -
  define e where "e = ulp_exp q"
  define m where "m = rhe (q / 2 powi e)"
  have ypos: "0 < y" using assms by linarith
  have ey: "e \<le> ulp_exp y" using ulp_exp_mono [OF assms(1,2)] by (simp add: e_def)
  have ey971: "ulp_exp y \<le> 971" using rnd_mag_SomeD(2) [OF assms(3)] .
  show ?thesis
  proof (cases "ulp_exp y = e")
    case True
    define my where "my = rhe (y / 2 powi e)"
    have ym: "y / 2 powi e = of_int my" using rep_scaled [OF assms(3)] True by (simp add: my_def)
    have "q / 2 powi e \<le> y / 2 powi e" using assms(2) by (simp add: divide_right_mono)
    then have "q / 2 powi e \<le> of_int my" using ym by simp
    then have mm: "m \<le> my" unfolding m_def by (rule rhe_le)
    have "e = 971 \<Longrightarrow> my < 2 ^ 53"
      using rnd_mag_SomeD(3) [OF assms(3)] True by (simp add: my_def)
    then have "ulp_exp q < 971 \<or> (ulp_exp q = 971 \<and> rhe (q / 2 powi ulp_exp q) < 2 ^ 53)"
      using mm ey971 True by (fold e_def, fold m_def) auto
    then have s: "rnd_mag q = Some (of_int m * 2 powi e)"
      unfolding m_def e_def by (rule rnd_mag_SomeI)
    have "(of_int m :: rat) \<le> of_int my" using mm by (simp only: of_int_le_iff)
    then have "of_int m * 2 powi e \<le> of_int my * (2::rat) powi e"
      by (intro mult_right_mono) simp_all
    moreover have "y = of_int my * 2 powi e" using ym by (simp add: field_simps)
    ultimately show ?thesis using s by simp
  next
    case False
    then have lt: "e + 1 \<le> ulp_exp y" using ey by simp
    then have "ulp_exp q < 971 \<or> (ulp_exp q = 971 \<and> rhe (q / 2 powi ulp_exp q) < 2 ^ 53)"
      using ey971 by (simp add: e_def)
    then have s: "rnd_mag q = Some (of_int m * 2 powi e)"
      unfolding m_def e_def by (rule rnd_mag_SomeI)
    have "m \<le> 2 ^ 53" using rhe_scaled_upper [OF assms(1)] by (simp add: m_def e_def)
    then have "(of_int m :: rat) \<le> of_int (2 ^ 53)" by (simp only: of_int_le_iff)
    then have "of_int m * 2 powi e \<le> of_int (2 ^ 53) * (2::rat) powi e"
      by (intro mult_right_mono) simp_all
    then have small: "of_int m * 2 powi e \<le> (2::rat) powi (e + 53)"
      by (simp add: pow2_add mult.commute)
    have "- 1074 < ulp_exp y" using lt ulp_exp_ge [of q] by (simp add: e_def)
    then have "2 powi (ulp_exp y + 52) \<le> y" using ulp_lower [OF ypos] by simp
    moreover have "e + 53 \<le> ulp_exp y + 52" using lt by simp
    then have "(2::rat) powi (e + 53) \<le> 2 powi (ulp_exp y + 52)" by (rule pow2_mono)
    ultimately show ?thesis using s small by simp
  qed
qed

lemma rnd_mag_idem:
  assumes "0 < q" and "rnd_mag q = Some v" and "v \<noteq> 0"
  shows "rnd_mag v = Some v"
proof -
  define e where "e = ulp_exp q"
  define m where "m = rhe (q / 2 powi e)"
  have v: "v = of_int m * 2 powi e"
    using rnd_mag_SomeD(1) [OF assms(2)] by (simp add: m_def e_def)
  have e_lo: "- 1074 \<le> e" by (simp add: e_def ulp_exp_ge)
  have e_hi: "e \<le> 971" using rnd_mag_SomeD(2) [OF assms(2)] by (simp add: e_def)
  have "0 \<le> m" using rhe_scaled_nonneg [OF assms(1)] by (simp add: m_def e_def)
  moreover have "m \<noteq> 0" using assms(3) v by auto
  ultimately have mpos: "0 < m" by simp
  have m_hi: "m \<le> 2 ^ 53" using rhe_scaled_upper [OF assms(1)] by (simp add: m_def e_def)
  show ?thesis
  proof (cases "m < 2 ^ 53")
    case True
    then show ?thesis unfolding v using mpos e_lo e_hi by (intro rnd_mag_exact)
  next
    case False
    then have m: "m = 2 ^ 53" using m_hi by simp
    have "e \<noteq> 971" using rnd_mag_SomeD(3) [OF assms(2)] m by (auto simp: m_def e_def)
    then have e1: "e + 1 \<le> 971" using e_hi by simp
    have "v = of_int (2 ^ 52) * 2 powi (e + 1)" by (simp add: v m pow2_add)
    moreover have "rnd_mag (of_int (2 ^ 52) * 2 powi (e + 1)) = Some (of_int (2 ^ 52) * 2 powi (e + 1))"
      using e_lo e1 by (intro rnd_mag_exact) simp_all
    ultimately show ?thesis by simp
  qed
qed

subsection \<open>Rounding to a double\<close>

lemma rnd_zero [simp]: "rnd 0 = Fin 0"
  by (simp add: rnd_def)

lemma rnd_pos_cases:
  assumes "0 < q"
  obtains "rnd q = PInf" and "rnd_mag q = None"
  | v where "rnd q = Fin v" and "rnd_mag q = Some v" and "0 \<le> v"
proof (cases "rnd_mag q")
  case None
  then have "rnd q = PInf" using assms by (simp add: rnd_def)
  then show ?thesis using None that(1) by simp
next
  case (Some v)
  then have "rnd q = Fin v" using assms by (simp add: rnd_def)
  then show ?thesis using Some rnd_mag_nonneg [OF assms Some] that(2) by simp
qed

lemma rnd_neg:
  assumes "q < 0"
  shows "rnd q = (case rnd_mag (- q) of None \<Rightarrow> NInf
                  | Some v \<Rightarrow> if v = 0 then NegZero else Fin (- v))"
  using assms by (simp add: rnd_def)

lemma rnd_Fin_pos:
  assumes "0 < v"
  shows "rnd v = Fin v \<longleftrightarrow> rnd_mag v = Some v"
  using assms by (auto simp: rnd_def split: option.splits)

lemma rnd_Fin_idem:
  assumes "rnd q = Fin v"
  shows "rnd v = Fin v"
proof -
  consider "q = 0" | "0 < q" | "q < 0" by linarith
  then show ?thesis
  proof cases
    case 1
    then show ?thesis using assms by simp
  next
    case 2
    have m: "rnd_mag q = Some v"
      using assms 2 by (simp add: rnd_def split: option.splits)
    have v0: "0 \<le> v" using rnd_mag_nonneg [OF 2 m] .
    show ?thesis
    proof (cases "v = 0")
      case False
      then have "0 < v" using v0 by simp
      then show ?thesis using rnd_mag_idem [OF 2 m False] by (simp add: rnd_Fin_pos)
    qed simp
  next
    case 3
    then have qpos: "0 < - q" by simp
    from assms 3 obtain u where u: "rnd_mag (- q) = Some u" "u \<noteq> 0" "v = - u"
      by (auto simp: rnd_neg split: option.splits if_splits)
    have "0 \<le> u" using rnd_mag_nonneg [OF qpos u(1)] .
    then have upos: "0 < u" using u(2) by simp
    have "rnd_mag u = Some u" using rnd_mag_idem [OF qpos u(1,2)] .
    then show ?thesis using upos u(2,3) by (simp add: rnd_def)
  qed
qed

lemma is_double_rnd [simp]: "is_double (rnd q)"
  by (cases "rnd q") (simp_all add: is_double_def rnd_Fin_idem)

lemma rnd_nonneg:
  assumes "0 \<le> q"
  shows "rnd q = PInf \<or> (\<exists>v. rnd q = Fin v \<and> 0 \<le> v)"
proof (cases "q = 0")
  case False
  then have "0 < q" using assms by simp
  then show ?thesis by (rule rnd_pos_cases) simp_all
qed simp

lemma rnd_ge:
  assumes "rnd y = Fin y" and "0 \<le> y" and "y \<le> q"
  shows "rnd q = PInf \<or> (\<exists>v. rnd q = Fin v \<and> y \<le> v)"
proof (cases "y = 0")
  case True
  then show ?thesis using rnd_nonneg [of q] assms by simp
next
  case False
  then have ypos: "0 < y" using assms(2) by simp
  then have qpos: "0 < q" using assms(3) by linarith
  have my: "rnd_mag y = Some y" using assms(1) ypos by (simp add: rnd_Fin_pos)
  from qpos show ?thesis
  proof (rule rnd_pos_cases)
    fix v assume "rnd q = Fin v" "rnd_mag q = Some v" "0 \<le> v"
    then show ?thesis using rnd_mag_ge [OF ypos assms(3) my] by simp
  qed simp
qed

lemma rnd_le:
  assumes "rnd y = Fin y" and "0 \<le> q" and "q \<le> y"
  shows "\<exists>v. rnd q = Fin v \<and> 0 \<le> v \<and> v \<le> y"
proof (cases "q = 0")
  case True
  then show ?thesis using assms by simp
next
  case False
  then have qpos: "0 < q" using assms(2) by simp
  then have ypos: "0 < y" using assms(3) by linarith
  have my: "rnd_mag y = Some y" using assms(1) ypos by (simp add: rnd_Fin_pos)
  obtain v where v: "rnd_mag q = Some v" "v \<le> y"
    using rnd_mag_le [OF qpos assms(3) my] by blast
  then have "rnd q = Fin v" using qpos by (simp add: rnd_def)
  then show ?thesis using v rnd_mag_nonneg [OF qpos v(1)] by simp
qed

lemma rnd_exact:
  assumes "0 \<le> m" and "m < 2 ^ 53" and "- 1074 \<le> e" and "e \<le> 971"
  shows "rnd (of_int m * 2 powi e) = Fin (of_int m * 2 powi e)"
proof (cases "m = 0")
  case False
  then have mpos: "0 < m" using assms(1) by simp
  then have "0 < (of_int m :: rat) * 2 powi e" by simp
  then show ?thesis using rnd_mag_exact [OF mpos assms(2-4)] by (simp add: rnd_Fin_pos)
qed simp

lemma rnd_of_nat:
  assumes "n \<le> 2 ^ 53"
  shows "rnd (of_nat n) = Fin (of_nat n)"
proof (cases "n = 2 ^ 53")
  case True
  have "rnd (of_int (2 ^ 52) * 2 powi 1) = Fin (of_int (2 ^ 52) * 2 powi 1)"
    by (rule rnd_exact) simp_all
  then show ?thesis using True by simp
next
  case False
  then have "int n < 2 ^ 53" using assms by simp
  then have "rnd (of_int (int n) * 2 powi 0) = Fin (of_int (int n) * 2 powi 0)"
    by (intro rnd_exact) simp_all
  then show ?thesis by simp
qed

lemma rnd_half_of_nat:
  assumes "n \<le> 2 ^ 53"
  shows "rnd (of_nat n / 2) = Fin (of_nat n / 2)"
proof (cases "n = 2 ^ 53")
  case True
  have "rnd (of_int (2 ^ 52) * 2 powi 0) = Fin (of_int (2 ^ 52) * 2 powi 0)"
    by (rule rnd_exact) simp_all
  then show ?thesis using True by simp
next
  case False
  then have "int n < 2 ^ 53" using assms by simp
  then have "rnd (of_int (int n) * 2 powi (- 1)) = Fin (of_int (int n) * 2 powi (- 1))"
    by (intro rnd_exact) simp_all
  then show ?thesis by (simp add: power_int_minus field_simps)
qed

lemma rnd_one [simp]: "rnd 1 = Fin 1"
  using rnd_of_nat [of 1] by simp

subsection \<open>Sums and quotients of weights\<close>

text \<open>
  A clipped weight is a finite double that is not below zero; a partial sum of clipped
  weights is such a double too, or the positive infinity when the sum overflows.
\<close>

lemma clipped_cases:
  assumes "isfinite x" and "\<not> flt x (Fin 0)"
  obtains "x = NegZero" | q where "x = Fin q" and "0 \<le> q"
  using assms by (cases x) (auto simp: isfinite_def flt_def isnan_def cls_def valof_def)

lemma fadd_nonneg:
  assumes acc: "acc = PInf \<or> (\<exists>a. acc = Fin a \<and> 0 \<le> a \<and> rnd a = Fin a)"
    and x: "isfinite x" "\<not> flt x (Fin 0)" "is_double x"
  shows "(fadd acc x = PInf \<or> (\<exists>a. fadd acc x = Fin a \<and> 0 \<le> a \<and> rnd a = Fin a))
         \<and> fle acc (fadd acc x) \<and> fle x (fadd acc x)"
proof (cases "acc = PInf")
  case True
  then show ?thesis using x(1)
    by (cases x) (simp_all add: fadd_def isnan_def isfinite_def fle_def cls_def)
next
  case False
  then obtain a where a: "acc = Fin a" "0 \<le> a" "rnd a = Fin a" using acc by blast
  from x(1,2) show ?thesis
  proof (cases rule: clipped_cases)
    case 1
    then show ?thesis using a
      by (simp add: fadd_def isnan_def isfinite_def fle_def cls_def valof_def)
  next
    case (2 q)
    have rq: "rnd q = Fin q" using x(3) 2 by (simp add: is_double_def)
    have s: "fadd acc x = rnd (a + q)"
      using a 2 by (simp add: fadd_def isnan_def isfinite_def valof_def)
    have "a \<le> a + q" "q \<le> a + q" using a(2) 2(2) by simp_all
    then have A: "rnd (a + q) = PInf \<or> (\<exists>v. rnd (a + q) = Fin v \<and> a \<le> v)"
      and Q: "rnd (a + q) = PInf \<or> (\<exists>v. rnd (a + q) = Fin v \<and> q \<le> v)"
      using rnd_ge [OF a(3) a(2)] rnd_ge [OF rq 2(2)] by blast+
    show ?thesis
    proof (cases "rnd (a + q) = PInf")
      case True
      then show ?thesis using s a 2 by (simp add: fle_def isnan_def cls_def)
    next
      case False
      then obtain v where v: "rnd (a + q) = Fin v" "a \<le> v" "q \<le> v" using A Q by auto
      have "rnd v = Fin v" using v(1) by (rule rnd_Fin_idem)
      then show ?thesis using s v a 2
        by (auto simp: fle_def isnan_def cls_def valof_def)
    qed
  qed
qed

lemma fle_trans: "fle a b \<Longrightarrow> fle b c \<Longrightarrow> fle a c"
  by (auto simp: fle_def)

lemma foldl_fadd_nonneg:
  assumes "acc = PInf \<or> (\<exists>a. acc = Fin a \<and> 0 \<le> a \<and> rnd a = Fin a)"
    and "\<forall>x\<in>set xs. isfinite x \<and> \<not> flt x (Fin 0) \<and> is_double x"
  shows "(foldl fadd acc xs = PInf \<or> (\<exists>a. foldl fadd acc xs = Fin a \<and> 0 \<le> a \<and> rnd a = Fin a))
         \<and> fle acc (foldl fadd acc xs) \<and> (\<forall>x\<in>set xs. fle x (foldl fadd acc xs))"
  using assms
proof (induction xs arbitrary: acc)
  case Nil
  then show ?case by (auto simp: fle_def isnan_def)
next
  case (Cons x xs)
  have x: "isfinite x" "\<not> flt x (Fin 0)" "is_double x" using Cons.prems(2) by simp_all
  note step = fadd_nonneg [OF Cons.prems(1) x]
  have rest: "\<forall>y\<in>set xs. isfinite y \<and> \<not> flt y (Fin 0) \<and> is_double y"
    using Cons.prems(2) by simp
  note ih = Cons.IH [OF conjunct1 [OF step] rest]
  show ?case
    using ih step by (auto intro: fle_trans)
qed

lemma clip_weights_props:
  assumes "x \<in> set (clip_weights w)"
  shows "isfinite x" and "\<not> flt x (Fin 0)" and "fle (Fin 0) x"
proof -
  from assms obtain y where y: "y \<in> set w"
      "x = (if \<not> isfinite y \<or> flt y (Fin 0) then Fin 0 else y)"
    by (auto simp: clip_weights_def)
  show "isfinite x" using y(2) by (auto simp: isfinite_def)
  show nl: "\<not> flt x (Fin 0)" using y(2) by (auto simp: flt_def valof_def)
  from \<open>isfinite x\<close> nl show "fle (Fin 0) x"
    by (cases rule: clipped_cases) (simp_all add: fle_def isnan_def cls_def valof_def)
qed

lemma clip_weights_is_double:
  assumes "\<forall>y\<in>set w. is_double y" and "x \<in> set (clip_weights w)"
  shows "is_double x"
  using assms by (auto simp: clip_weights_def is_double_def)

lemma fdiv_unit_interval:
  assumes x: "isfinite x" "\<not> flt x (Fin 0)"
    and s: "s = PInf \<or> (\<exists>a. s = Fin a \<and> 0 \<le> a)"
    and pos: "\<not> fle s (Fin 0)" and le: "fle x s"
  shows "fle (Fin 0) (fdiv x s) \<and> fle (fdiv x s) (Fin 1)"
proof (cases "s = PInf")
  case True
  from x show ?thesis
    by (cases rule: clipped_cases)
      (simp_all add: True fdiv_def isnan_def isfinite_def signbit_def signed_zero_def
        fle_def cls_def valof_def)
next
  case False
  then obtain a where a: "s = Fin a" "0 \<le> a" using s by blast
  have apos: "0 < a" using pos a by (simp add: fle_def isnan_def cls_def valof_def)
  from x show ?thesis
  proof (cases rule: clipped_cases)
    case 1
    then show ?thesis using a apos
      by (simp add: fdiv_def isnan_def isfinite_def signbit_def signed_zero_def
          fle_def cls_def valof_def)
  next
    case (2 q)
    have qa: "q \<le> a" using le 2 a by (simp add: fle_def isnan_def cls_def valof_def)
    show ?thesis
    proof (cases "q = 0")
      case True
      then show ?thesis using 2 a apos
        by (simp add: fdiv_def isnan_def isfinite_def signbit_def signed_zero_def
            fle_def cls_def valof_def)
    next
      case False
      have "0 \<le> q / a" "q / a \<le> 1" using 2(2) qa apos by simp_all
      then obtain v where v: "rnd (q / a) = Fin v" "0 \<le> v" "v \<le> 1"
        using rnd_le [OF rnd_one] by blast
      have "fdiv x s = rnd (q / a)" using 2 a apos False
        by (simp add: fdiv_def isnan_def isfinite_def valof_def)
      then show ?thesis using v by (simp add: fle_def isnan_def cls_def valof_def)
    qed
  qed
qed

section \<open>The loops and the helpers\<close>

lemma trim_loop_eq:
  "n \<le> length v \<Longrightarrow> i \<le> n - k \<Longrightarrow>
   trim_loop v n k i s cnt = Inr (foldl fadd s (take (n - k - i) (drop i v)), cnt + (n - k - i))"
proof (induction v n k i s cnt rule: trim_loop.induct)
  case (1 v n k i s cnt)
  show ?case
  proof (cases "i < n - k")
    case True
    then have il: "i < length v" using "1.prems" by linarith
    have step: "trim_loop v n k i s cnt = trim_loop v n k (i + 1) (fadd s (v ! i)) (cnt + 1)"
      using True il by (subst trim_loop.simps) simp
    have ih: "trim_loop v n k (i + 1) (fadd s (v ! i)) (cnt + 1) =
        Inr (foldl fadd (fadd s (v ! i)) (take (n - k - (i + 1)) (drop (i + 1) v)), cnt + 1 + (n - k - (i + 1)))"
      using "1.IH" [OF True il] "1.prems" True by simp
    have "n - k - i = Suc (n - k - (i + 1))" using True by simp
    moreover have "drop i v = v ! i # drop (i + 1) v"
      using il by (simp add: Cons_nth_drop_Suc)
    ultimately have "take (n - k - i) (drop i v) = v ! i # take (n - k - (i + 1)) (drop (i + 1) v)"
      by simp
    then show ?thesis using step ih True by simp
  next
    case False
    then show ?thesis by (subst trim_loop.simps) simp
  qed
qed

lemma dot_loop_eq:
  "length w = length v \<Longrightarrow>
   dot_loop v w i d = Inr (foldl fadd d (map (\<lambda>(x, y). fmul x y) (zip (drop i v) (drop i w))))"
proof (induction v w i d rule: dot_loop.induct)
  case (1 v w i d)
  show ?case
  proof (cases "i < length v")
    case True
    then have iw: "i < length w" using "1.prems" by simp
    have step: "dot_loop v w i d = dot_loop v w (i + 1) (fadd d (fmul (v ! i) (w ! i)))"
      using True iw by (subst dot_loop.simps) simp
    have "drop i v = v ! i # drop (i + 1) v" "drop i w = w ! i # drop (i + 1) w"
      using True iw by (simp_all add: Cons_nth_drop_Suc)
    then show ?thesis using step "1.IH" [OF True iw "1.prems"] by simp
  next
    case False
    then show ?thesis using "1.prems" by (subst dot_loop.simps) simp
  qed
qed

lemma length_std_sort [simp]: "length (std_sort v) = length v"
  by (simp add: std_sort_def)

lemma std_sort_Nil_iff [simp]: "std_sort v = [] \<longleftrightarrow> v = []"
  by (metis length_std_sort length_0_conv)

lemma filter_finite_eq: "filter_finite v = filter isfinite v"
  by (simp add: filter_finite_def remove_if_def)

lemma filter_finite_idem [simp]: "filter_finite (filter_finite v) = filter_finite v"
  by (simp add: filter_finite_eq)

lemma filter_finite_filter [simp]: "filter_finite (filter isfinite v) = filter_finite v"
  by (simp add: filter_finite_eq)

lemma length_clip_weights [simp]: "length (clip_weights w) = length w"
  by (simp add: clip_weights_def)

lemma mean_Nil [simp]: "mean [] = NaN"
  by (simp add: mean_def)

lemma trim_loop_slice:
  assumes "2 * k < length v"
  shows "trim_loop v (length v) k k (Fin 0) 0 =
         Inr (accumulate (take (length v - 2 * k) (drop k v)) (Fin 0), length v - 2 * k)"
proof -
  have "k \<le> length v - k" using assms by linarith
  then have "trim_loop v (length v) k k (Fin 0) 0 =
      Inr (foldl fadd (Fin 0) (take (length v - k - k) (drop k v)), 0 + (length v - k - k))"
    by (intro trim_loop_eq) simp_all
  moreover have "length v - k - k = length v - 2 * k" by simp
  ultimately show ?thesis by (simp add: accumulate_def)
qed

lemma trimmed_mean_unfold:
  assumes "filter_finite v0 \<noteq> []"
  shows "trimmed_mean v0 r srt =
     (let v = (if srt then filter_finite v0 else std_sort (filter_finite v0));
          n = length v;
          k = trim_count (clamp_ratio r) n
      in if n \<le> 2 * k then Inr (mean v)
         else Inr (fdiv (accumulate (take (n - 2 * k) (drop k v)) (Fin 0)) (of_size (n - 2 * k))))"
proof -
  define v where "v = (if srt then filter_finite v0 else std_sort (filter_finite v0))"
  define k where "k = trim_count (clamp_ratio r) (length v)"
  have tm: "trimmed_mean v0 r srt =
      (if length v \<le> 2 * k then Inr (mean v)
       else case trim_loop v (length v) k k (Fin 0) 0 of
              Inl e \<Rightarrow> Inl e
            | Inr (s, cnt) \<Rightarrow> Inr (fdiv s (of_size (if 0 < cnt then cnt else 1))))"
    using assms by (simp add: trimmed_mean_def Let_def v_def k_def)
  show ?thesis
  proof (cases "length v \<le> 2 * k")
    case True
    then show ?thesis using tm by (simp add: Let_def v_def [symmetric] k_def [symmetric])
  next
    case False
    then have lt: "2 * k < length v" by simp
    then have pos: "0 < length v - 2 * k" by simp
    show ?thesis
      using tm False pos trim_loop_slice [OF lt]
      by (simp add: Let_def v_def [symmetric] k_def [symmetric])
  qed
qed

lemma sorted_weighted_mean_unfold:
  assumes "filter_finite v0 \<noteq> []"
  shows "sorted_weighted_mean v0 w0 srt =
     (let v = (if srt then filter_finite v0 else std_sort (filter_finite v0));
          w = clip_weights w0;
          s = accumulate w (Fin 0)
      in if length w0 \<noteq> length v then
           Inl (InvalidArgument ''weights length must match values length'')
         else if fle s (Fin 0) then Inr (mean v)
         else Inr (foldl fadd (Fin 0)
                (map (\<lambda>(x, y). fmul x y) (zip v (normalize_weights w s)))))"
proof -
  have dot: "dot_loop v (normalize_weights (clip_weights w0) s) 0 (Fin 0) =
      Inr (foldl fadd (Fin 0)
        (map (\<lambda>(x, y). fmul x y) (zip v (normalize_weights (clip_weights w0) s))))"
    if "length w0 = length v" for v s
    using dot_loop_eq [of "normalize_weights (clip_weights w0) s" v 0 "Fin 0"] that
    by (simp add: normalize_weights_def)
  show ?thesis
  proof (cases srt)
    case True
    then show ?thesis using assms dot [of "filter_finite v0"]
      by (simp add: sorted_weighted_mean_def Let_def)
  next
    case False
    then show ?thesis using assms dot [of "std_sort (filter_finite v0)"]
      by (simp add: sorted_weighted_mean_def Let_def)
  qed
qed

lemma std_sort_Nil [simp]: "std_sort [] = []"
  by (simp add: std_sort_def)

lemma round_half_away_zero [simp]: "round_half_away 0 = 0"
proof -
  have "\<lfloor>1 / 2 :: rat\<rfloor> = 0" by (rule floor_unique) simp_all
  then show ?thesis by (simp add: round_half_away_def)
qed

lemma llround_eq: "llround d = round_half_away (valof d)"
  by (cases d) (simp_all add: llround_def isfinite_def valof_def)

lemma round_half_away_nearest:
  "\<bar>of_int (round_half_away q) - q\<bar> \<le> 1 / 2"
proof (cases "0 \<le> q")
  case True
  then have "round_half_away q = \<lfloor>q + 1 / 2\<rfloor>" by (simp add: round_half_away_def)
  then show ?thesis by linarith
next
  case False
  then have "round_half_away q = - \<lfloor>- q + 1 / 2\<rfloor>" by (simp add: round_half_away_def)
  then show ?thesis by linarith
qed

lemma round_half_away_tie:
  assumes "0 \<le> q" and "q = of_int n + 1 / 2"
  shows "round_half_away q = n + 1"
proof -
  have "q + 1 / 2 = of_int (n + 1)" using assms(2) by simp
  then have "\<lfloor>q + 1 / 2\<rfloor> = n + 1" by (simp only: floor_of_int)
  then show ?thesis using assms(1) by (simp add: round_half_away_def)
qed

lemma trimmed_mean_cong:
  "clamp_ratio r = clamp_ratio r' \<Longrightarrow> trimmed_mean v r srt = trimmed_mean v r' srt"
  unfolding trimmed_mean_def Let_def by simp

lemma fmul_zero_left: "llround (fmul (Fin 0) x) = 0"
  by (cases x)
    (simp_all add: fmul_def llround_def isnan_def isfinite_def valof_def signed_zero_def)

lemma clamp_ratio_zero [simp]: "clamp_ratio (Fin 0) = Fin 0"
  by (simp add: clamp_ratio_def isfinite_def flt_def fgt_def cls_def valof_def isnan_def)

lemma clamp_ratio_half [simp]: "clamp_ratio (Fin (1 / 2)) = Fin (1 / 2)"
  by (simp add: clamp_ratio_def isfinite_def flt_def fgt_def cls_def valof_def isnan_def)

lemma trim_count_zero [simp]: "trim_count (Fin 0) n = 0"
  by (simp add: trim_count_def fmul_zero_left)

lemma trimmed_mean_zero_ratio:
  "trimmed_mean v (Fin 0) srt =
   Inr (mean (if srt then filter_finite v else std_sort (filter_finite v)))"
proof (cases "filter_finite v = []")
  case True
  then show ?thesis by (simp add: trimmed_mean_def)
next
  case False
  have m: "Inr (fdiv (accumulate u (Fin 0)) (of_size (length u))) = Inr (mean u)"
    if "u \<noteq> []" for u :: "double list"
    using that by (simp add: mean_def)
  show ?thesis
    using False trimmed_mean_unfold [OF False, of "Fin 0" srt]
    by (simp add: Let_def m)
qed

lemma trim_count_half:
  assumes "n \<le> 2 ^ 53"
  shows "n \<le> 2 * trim_count (Fin (1 / 2)) n"
proof (cases "n = 0")
  case False
  have sz: "of_size n = Fin (of_nat n)" using rnd_of_nat [OF assms] by (simp add: of_size_def)
  have "fmul (Fin (1 / 2)) (of_size n) = rnd (of_nat n / 2)"
    using False by (simp add: sz fmul_def isnan_def isfinite_def valof_def)
  then have p: "fmul (Fin (1 / 2)) (of_size n) = Fin (of_nat n / 2)"
    using rnd_half_of_nat [OF assms] by simp
  have "int n \<le> 2 * \<lfloor>(of_nat n :: rat) / 2 + 1 / 2\<rfloor>"
  proof -
    have "(of_nat n :: rat) / 2 + 1 / 2 < of_int \<lfloor>(of_nat n :: rat) / 2 + 1 / 2\<rfloor> + 1"
      by linarith
    then have "(of_nat n :: rat) < of_int (2 * \<lfloor>(of_nat n :: rat) / 2 + 1 / 2\<rfloor> + 1)"
      by simp
    then have "(of_int (int n) :: rat) < of_int (2 * \<lfloor>(of_nat n :: rat) / 2 + 1 / 2\<rfloor> + 1)"
      by simp
    then have "int n < 2 * \<lfloor>(of_nat n :: rat) / 2 + 1 / 2\<rfloor> + 1"
      by (simp only: of_int_less_iff)
    then show ?thesis by simp
  qed
  then show ?thesis
    by (simp add: trim_count_def p llround_def isfinite_def valof_def round_half_away_def)
qed simp

lemma trimmed_mean_half_ratio:
  assumes "length (filter_finite v) \<le> 2 ^ 53"
  shows "trimmed_mean v (Fin (1 / 2)) srt =
   Inr (mean (if srt then filter_finite v else std_sort (filter_finite v)))"
proof (cases "filter_finite v = []")
  case True
  then show ?thesis by (simp add: trimmed_mean_def)
next
  case False
  show ?thesis
    using False trimmed_mean_unfold [OF False, of "Fin (1 / 2)" srt]
      trim_count_half [OF assms]
    by (simp add: Let_def)
qed

text \<open>
  The sizes stay in range: for a vector of at most \<open>2 ^ 61\<close> elements the product passed
  to \<open>llround\<close> is finite and at most \<open>2 ^ 60\<close>, so \<open>llround\<close> is used inside its
  domain, its result fits a \<^verbatim>\<open>long long\<close> and a \<^verbatim>\<open>std::size_t\<close>, and \<open>2 * k\<close> does not
  wrap around.
\<close>

lemma clamp_ratio_Fin:
  "clamp_ratio (Fin x) = (if x < 0 then Fin 0 else if 1 / 2 < x then Fin (1 / 2) else Fin x)"
  by (simp add: clamp_ratio_def isfinite_def flt_def fgt_def isnan_def cls_def valof_def)

lemma clamp_ratio_NegZero [simp]: "clamp_ratio NegZero = NegZero"
  by (simp add: clamp_ratio_def isfinite_def flt_def fgt_def isnan_def cls_def valof_def)

lemma clamp_ratio_nonfinite: "\<not> isfinite r \<Longrightarrow> clamp_ratio r = Fin 0"
  by (simp add: clamp_ratio_def flt_def fgt_def isnan_def cls_def valof_def)

lemma clamp_ratio_range:
  obtains "clamp_ratio r = NegZero" | q where "clamp_ratio r = Fin q" and "0 \<le> q" and "q \<le> 1 / 2"
proof (cases r)
  case (Fin x)
  consider "x < 0" | "1 / 2 < x" | "0 \<le> x" "x \<le> 1 / 2" by linarith
  then show ?thesis
  proof cases
    case 1
    then show ?thesis using that(2) [of 0] Fin by (simp add: clamp_ratio_Fin)
  next
    case 2
    then show ?thesis using that(2) [of "1 / 2"] Fin by (simp add: clamp_ratio_Fin)
  next
    case 3
    then show ?thesis using that(2) [of x] Fin by (simp add: clamp_ratio_Fin)
  qed
next
  case NegZero
  then show ?thesis using that(1) by simp
qed (use that(2) in \<open>simp_all add: clamp_ratio_nonfinite isfinite_def\<close>)

lemma rnd_pow2: "0 \<le> e \<Longrightarrow> e \<le> 971 \<Longrightarrow> rnd (2 ^ nat e) = Fin (2 ^ nat e)"
  using rnd_exact [of 1 e] by (simp add: pow2_nat)

lemma of_size_range:
  assumes "n \<le> 2 ^ 61"
  shows "\<exists>v. of_size n = Fin v \<and> 0 \<le> v \<and> v \<le> 2 ^ 61"
proof -
  have "rnd (2 ^ nat 61) = Fin (2 ^ nat 61)" by (rule rnd_pow2) simp_all
  then have r: "rnd (2 ^ 61) = Fin (2 ^ 61)" by simp
  have "(of_nat n :: rat) \<le> of_nat (2 ^ 61)" using assms by (simp only: of_nat_le_iff)
  then have "(of_nat n :: rat) \<le> 2 ^ 61" by simp
  then show ?thesis unfolding of_size_def by (intro rnd_le [OF r]) simp_all
qed

lemma trim_count_no_overflow:
  assumes "n \<le> 2 ^ 61"
  shows "isfinite (fmul (clamp_ratio r) (of_size n))"
    and "trim_count (clamp_ratio r) n \<le> 2 ^ 60"
proof -
  obtain v where v: "of_size n = Fin v" "0 \<le> v" "v \<le> 2 ^ 61"
    using of_size_range [OF assms] by blast
  have "rnd (2 ^ nat 60) = Fin (2 ^ nat 60)" by (rule rnd_pow2) simp_all
  then have r60: "rnd (2 ^ 60) = Fin (2 ^ 60)" by simp
  have "isfinite (fmul (clamp_ratio r) (of_size n)) \<and>
        0 \<le> valof (fmul (clamp_ratio r) (of_size n)) \<and>
        valof (fmul (clamp_ratio r) (of_size n)) \<le> 2 ^ 60"
  proof (cases r rule: clamp_ratio_range)
    case 1
    then show ?thesis
      by (simp add: v fmul_def isnan_def isfinite_def valof_def signed_zero_def)
  next
    case (2 q)
    show ?thesis
    proof (cases "q * v = 0")
      case True
      then show ?thesis using 2
        by (auto simp: v fmul_def isnan_def isfinite_def valof_def signed_zero_def)
    next
      case False
      have "q * v \<le> (1 / 2) * 2 ^ 61" using 2(2,3) v(2,3) by (intro mult_mono) simp_all
      then have "q * v \<le> 2 ^ 60" by simp
      moreover have "0 \<le> q * v" using 2(2) v(2) by simp
      ultimately obtain u where u: "rnd (q * v) = Fin u" "0 \<le> u" "u \<le> 2 ^ 60"
        using rnd_le [OF r60] by blast
      have "fmul (clamp_ratio r) (of_size n) = rnd (q * v)"
        using False 2(1) by (simp add: v fmul_def isnan_def isfinite_def valof_def)
      then show ?thesis using u by (simp add: isfinite_def valof_def)
    qed
  qed
  then obtain x where x: "isfinite (fmul (clamp_ratio r) (of_size n))"
      "x = valof (fmul (clamp_ratio r) (of_size n))" "0 \<le> x" "x \<le> 2 ^ 60"
    by blast
  show "isfinite (fmul (clamp_ratio r) (of_size n))" by (rule x(1))
  define k where "k = \<lfloor>x + 1 / 2\<rfloor>"
  have "x + 1 / 2 < of_int (2 ^ 60 + 1)" using x(4) by simp
  then have "k < 2 ^ 60 + 1" unfolding k_def by (simp only: floor_less_iff)
  then have "nat k \<le> 2 ^ 60" by simp
  moreover have "trim_count (clamp_ratio r) n = nat k"
    using x(1,3) by (simp add: trim_count_def llround_def x(2) [symmetric] round_half_away_def k_def)
  ultimately show "trim_count (clamp_ratio r) n \<le> 2 ^ 60" by simp
qed

lemma clip_weights_nth:
  assumes "i < length w"
  shows "clip_weights w ! i = (if \<not> isfinite (w ! i) \<or> flt (w ! i) (Fin 0) then Fin 0 else w ! i)"
  using assms by (simp add: clip_weights_def)

lemma sorted_weighted_mean_clip_cong:
  "clip_weights w = clip_weights w' \<Longrightarrow>
   sorted_weighted_mean v w srt = sorted_weighted_mean v w' srt"
  unfolding sorted_weighted_mean_def Let_def by simp

section \<open>The claims\<close>

text \<open>
  Claim C1. \<open>sorted_weighted_mean\<close> raises \<open>InvalidArgument\<close> with the message
  "weights length must match values length" exactly when some finite sample remains and
  the clipped weights and the filtered (and, unless \<open>assume_sorted\<close>, sorted) samples
  differ in length. In every other case it returns a value: it raises nothing else, and
  its loop never reads outside a vector.
\<close>

theorem sorted_weighted_mean_raises_iff:
  "(sorted_weighted_mean v w srt =
      Inl (InvalidArgument ''weights length must match values length'')) =
   (filter_finite v \<noteq> [] \<and>
    length (clip_weights w) \<noteq>
      length (if srt then filter_finite v else std_sort (filter_finite v)))
   \<and>
   ((\<exists>d. sorted_weighted_mean v w srt = Inr d) =
    (\<not> (filter_finite v \<noteq> [] \<and>
        length (clip_weights w) \<noteq>
          length (if srt then filter_finite v else std_sort (filter_finite v)))))"
proof (cases "filter_finite v = []")
  case True
  then show ?thesis by (simp add: sorted_weighted_mean_def)
next
  case False
  show ?thesis
    using False unfolding sorted_weighted_mean_unfold [OF False]
    by (simp add: Let_def)
qed

theorem sorted_weighted_mean_raises_iff_witness:
  "sorted_weighted_mean [Fin 1, Fin 2] [Fin 1, Fin 2, Fin 3] False =
     Inl (InvalidArgument ''weights length must match values length'') \<and>
   (\<exists>d. sorted_weighted_mean [Fin 1, NaN, Fin 2] [Fin 1, Fin 3] False = Inr d) \<and>
   (\<exists>d. sorted_weighted_mean [NaN] [Fin 1, Fin 3] False = Inr d)"
  using sorted_weighted_mean_raises_iff [of "[Fin 1, Fin 2]" "[Fin 1, Fin 2, Fin 3]" False]
    sorted_weighted_mean_raises_iff [of "[Fin 1, NaN, Fin 2]" "[Fin 1, Fin 3]" False]
    sorted_weighted_mean_raises_iff [of "[NaN]" "[Fin 1, Fin 3]" False]
  by (simp add: filter_finite_eq isfinite_def)

text \<open>
  Claim C2. Removing the non-finite samples beforehand changes nothing: \<open>trimmed_mean\<close>
  and \<open>sorted_weighted_mean\<close>, called with the same other arguments, give the same result
  (value or error) on a sequence and on that sequence without its non-finite values. This
  holds for every sequence, so also for those that contain a non-finite value.
\<close>

theorem nonfinite_values_are_ignored:
  "trimmed_mean (filter isfinite v) r srt = trimmed_mean v r srt \<and>
   sorted_weighted_mean (filter isfinite v) w srt' = sorted_weighted_mean v w srt'"
  by (simp add: trimmed_mean_def sorted_weighted_mean_def)

theorem nonfinite_values_are_ignored_witness:
  "filter isfinite [Fin 2, NaN, Fin 1, PInf] = [Fin 2, Fin 1] \<and>
   trimmed_mean [Fin 2, Fin 1] (Fin (1 / 4)) False =
     trimmed_mean [Fin 2, NaN, Fin 1, PInf] (Fin (1 / 4)) False \<and>
   sorted_weighted_mean [Fin 2, Fin 1] [Fin 1, Fin 3] False =
     sorted_weighted_mean [Fin 2, NaN, Fin 1, PInf] [Fin 1, Fin 3] False"
proof -
  have f: "filter isfinite [Fin 2, NaN, Fin 1, PInf] = [Fin 2, Fin 1]"
    by (simp add: isfinite_def)
  show ?thesis
    using nonfinite_values_are_ignored [of "[Fin 2, NaN, Fin 1, PInf]" "Fin (1 / 4)" False
        "[Fin 1, Fin 3]" False]
    unfolding f by simp
qed

text \<open>
  Claim C3. On a non-empty filtered sequence \<open>v\<close> (sorted ascending unless
  \<open>assume_sorted\<close>) of length \<open>n\<close>, with the clamped ratio \<open>r\<close>, \<open>trimmed_mean\<close> takes for
  \<open>k\<close> the double product \<open>r * n\<close> rounded to the nearest integer, halfway cases away from
  zero. If \<open>2 * k \<ge> n\<close> it returns the mean of \<open>v\<close>; otherwise it returns the sum of the
  elements at the positions \<open>k, ..., n - k - 1\<close> divided by their number \<open>n - 2 * k\<close>, which
  is at least 1.
\<close>

theorem trimmed_mean_algorithm:
  assumes "filter_finite v0 \<noteq> []"
  shows "let v = (if srt then filter_finite v0 else std_sort (filter_finite v0));
             n = length v;
             r = clamp_ratio ratio;
             k = nat (round_half_away (valof (fmul r (of_size n))))
         in trimmed_mean v0 ratio srt =
              (if n \<le> 2 * k then Inr (mean v)
               else Inr (fdiv (accumulate (take (n - 2 * k) (drop k v)) (Fin 0))
                              (of_size (n - 2 * k))))
            \<and> (2 * k < n \<longrightarrow> 1 \<le> n - 2 * k \<and> length (take (n - 2 * k) (drop k v)) = n - 2 * k)
            \<and> (srt \<or> sorted (map valof v))"
proof -
  define v where "v = (if srt then filter_finite v0 else std_sort (filter_finite v0))"
  define k where "k = nat (round_half_away (valof (fmul (clamp_ratio ratio) (of_size (length v)))))"
  have k: "trim_count (clamp_ratio ratio) (length v) = k"
    by (simp add: k_def trim_count_def llround_eq)
  have A: "trimmed_mean v0 ratio srt =
      (if length v \<le> 2 * k then Inr (mean v)
       else Inr (fdiv (accumulate (take (length v - 2 * k) (drop k v)) (Fin 0))
                      (of_size (length v - 2 * k))))"
    using trimmed_mean_unfold [OF assms, of ratio srt]
    unfolding Let_def v_def [symmetric] k by simp
  have B: "2 * k < length v \<longrightarrow>
      1 \<le> length v - 2 * k \<and> length (take (length v - 2 * k) (drop k v)) = length v - 2 * k"
    by auto
  have C: "srt \<or> sorted (map valof v)"
    by (simp add: v_def std_sort_def)
  show ?thesis
    unfolding Let_def v_def [symmetric] k_def [symmetric]
    using A B C by blast
qed
theorem trimmed_mean_algorithm_witness:
  "filter_finite [Fin 4, NaN, Fin 1, Fin 100, Fin 2, Fin 3] \<noteq> [] \<and>
   nat (round_half_away (valof (fmul (clamp_ratio (Fin (1 / 4))) (of_size 5)))) = 1 \<and>
   trimmed_mean [Fin 4, NaN, Fin 1, Fin 100, Fin 2, Fin 3] (Fin (1 / 4)) False = Inr (Fin 3) \<and>
   filter_finite [Fin 7, Fin 5] \<noteq> [] \<and>
   nat (round_half_away (valof (fmul (clamp_ratio (Fin (1 / 4))) (of_size 2)))) = 1 \<and>
   trimmed_mean [Fin 7, Fin 5] (Fin (1 / 4)) False = Inr (Fin 6)"
proof -
  define V where "V = [Fin 4, NaN, Fin 1, Fin 100, Fin 2, Fin 3]"
  have ne: "filter_finite V \<noteq> []" unfolding V_def by code_simp
  have len: "length (filter_finite V) = 5" unfolding V_def by code_simp
  have k: "nat (round_half_away (valof (fmul (clamp_ratio (Fin (1 / 4))) (of_size 5)))) = 1"
    by code_simp
  have sl: "fdiv (accumulate (take 3 (drop (Suc 0) (std_sort (filter_finite V)))) (Fin 0)) (of_size 3) = Fin 3"
    unfolding V_def by code_simp
  have r: "trimmed_mean V (Fin (1 / 4)) False = Inr (Fin 3)"
    using trimmed_mean_algorithm [OF ne, of False "Fin (1 / 4)"]
    by (simp add: Let_def len k sl)
  define U where "U = [Fin 7, Fin 5]"
  have ne': "filter_finite U \<noteq> []" unfolding U_def by code_simp
  have len': "length (filter_finite U) = 2" unfolding U_def by code_simp
  have k': "nat (round_half_away (valof (fmul (clamp_ratio (Fin (1 / 4))) (of_size 2)))) = 1"
    by code_simp
  have m': "mean (std_sort (filter_finite U)) = Fin 6" unfolding U_def by code_simp
  have r': "trimmed_mean U (Fin (1 / 4)) False = Inr (Fin 6)"
    using trimmed_mean_algorithm [OF ne', of False "Fin (1 / 4)"]
    by (simp add: Let_def len' k' m')
  show ?thesis using ne k r ne' k' r' unfolding V_def U_def by simp
qed

text \<open>
  Claim C4, amended. \<open>sorted_weighted_mean\<close> replaces by \<open>0.0\<close> every weight that is not
  finite or is below zero and leaves the others alone, and its result depends on the
  weights through the clipped weights only. When the number of weights equals the number
  of finite samples, so that the length check passes, and the sum of the clipped weights
  is \<open>\<le> 0\<close>, it returns the plain mean of the filtered (and, unless \<open>assume_sorted\<close>,
  sorted) samples.
\<close>

theorem clipped_weights_fallback:
  "(\<forall>i<length w. (\<not> isfinite (w ! i) \<or> flt (w ! i) (Fin 0) \<longrightarrow> clip_weights w ! i = Fin 0) \<and>
                  (isfinite (w ! i) \<and> \<not> flt (w ! i) (Fin 0) \<longrightarrow> clip_weights w ! i = w ! i)) \<and>
   (clip_weights w = clip_weights w' \<longrightarrow>
      sorted_weighted_mean v w srt = sorted_weighted_mean v w' srt) \<and>
   (length w = length (filter_finite v) \<and> fle (accumulate (clip_weights w) (Fin 0)) (Fin 0) \<longrightarrow>
      sorted_weighted_mean v w srt =
        Inr (mean (if srt then filter_finite v else std_sort (filter_finite v))))"
proof (intro conjI allI impI)
  fix i assume "i < length w" "\<not> isfinite (w ! i) \<or> flt (w ! i) (Fin 0)"
  then show "clip_weights w ! i = Fin 0" by (simp add: clip_weights_nth)
next
  fix i assume "i < length w" "isfinite (w ! i) \<and> \<not> flt (w ! i) (Fin 0)"
  then show "clip_weights w ! i = w ! i" by (simp add: clip_weights_nth)
next
  assume "clip_weights w = clip_weights w'"
  then show "sorted_weighted_mean v w srt = sorted_weighted_mean v w' srt"
    by (rule sorted_weighted_mean_clip_cong)
next
  assume a: "length w = length (filter_finite v) \<and> fle (accumulate (clip_weights w) (Fin 0)) (Fin 0)"
  show "sorted_weighted_mean v w srt =
        Inr (mean (if srt then filter_finite v else std_sort (filter_finite v)))"
  proof (cases "filter_finite v = []")
    case True
    then show ?thesis by (simp add: sorted_weighted_mean_def)
  next
    case False
    show ?thesis
      using a unfolding sorted_weighted_mean_unfold [OF False] Let_def by simp
  qed
qed

theorem clipped_weights_fallback_witness:
  "length [Fin (- 1), NaN, NegZero] = length (filter_finite [Fin 3, Fin 1, Fin 2]) \<and>
   fle (accumulate (clip_weights [Fin (- 1), NaN, NegZero]) (Fin 0)) (Fin 0) \<and>
   clip_weights [Fin (- 1), NaN, NegZero] = [Fin 0, Fin 0, NegZero] \<and>
   sorted_weighted_mean [Fin 3, Fin 1, Fin 2] [Fin (- 1), NaN, NegZero] False = Inr (Fin 2)"
proof -
  have h: "length [Fin (- 1), NaN, NegZero] = length (filter_finite [Fin 3, Fin 1, Fin 2]) \<and>
      fle (accumulate (clip_weights [Fin (- 1), NaN, NegZero]) (Fin 0)) (Fin 0)"
    by code_simp
  have c: "clip_weights [Fin (- 1), NaN, NegZero] = [Fin 0, Fin 0, NegZero]"
    by code_simp
  have m: "mean (if False then filter_finite [Fin 3, Fin 1, Fin 2]
                 else std_sort (filter_finite [Fin 3, Fin 1, Fin 2])) = Fin 2"
    by code_simp
  have "sorted_weighted_mean [Fin 3, Fin 1, Fin 2] [Fin (- 1), NaN, NegZero] False = Inr (Fin 2)"
    using clipped_weights_fallback [of "[Fin (- 1), NaN, NegZero]" _ "[Fin 3, Fin 1, Fin 2]" False] h
    unfolding m by blast
  then show ?thesis using h c by blast
qed

text \<open>
  Without the condition on the lengths the fallback of C4 fails: the length check comes
  before the sum. With two samples and the single weight \<open>0.0\<close> the clipped weights sum to
  \<open>0\<close>, and the call raises \<open>InvalidArgument\<close> instead of returning the mean.
\<close>

theorem sorted_weighted_mean_zero_sum_counterexample:
  "fle (accumulate (clip_weights [Fin 0]) (Fin 0)) (Fin 0) \<and>
   sorted_weighted_mean [Fin 1, Fin 2] [Fin 0] False =
     Inl (InvalidArgument ''weights length must match values length'') \<and>
   sorted_weighted_mean [Fin 1, Fin 2] [Fin 0] False \<noteq>
     Inr (mean (std_sort (filter_finite [Fin 1, Fin 2])))"
  by code_simp

text \<open>
  Claim C5. When no finite value remains after filtering, \<open>trimmed_mean\<close> and
  \<open>sorted_weighted_mean\<close> both return the NaN sentinel and raise nothing, whatever the
  trim ratio, the weights and the flags are.
\<close>

theorem empty_after_filter_gives_nan:
  "filter_finite v = [] \<Longrightarrow>
   trimmed_mean v r s = Inr NaN \<and> sorted_weighted_mean v w s' = Inr NaN"
  by (simp add: trimmed_mean_def sorted_weighted_mean_def)

theorem empty_after_filter_gives_nan_witness:
  "filter_finite [NaN, PInf, NInf] = [] \<and>
   trimmed_mean [NaN, PInf, NInf] (Fin (1 / 10)) False = Inr NaN \<and>
   sorted_weighted_mean [NaN, PInf, NInf] [Fin 1, NaN] True = Inr NaN"
  using empty_after_filter_gives_nan [where v = "[NaN, PInf, NInf]" and r = "Fin (1 / 10)" and s = False and w = "[Fin 1, NaN]" and s' = True]
  by (simp add: filter_finite_eq isfinite_def)

text \<open>
  Claim C6, amended. With the trim ratio \<open>0.0\<close> and \<open>assume_sorted = false\<close> nothing is
  trimmed: \<open>trimmed_mean\<close> returns the mean of the finite values summed in ascending order,
  that is \<open>Mean\<close> of the sorted \<open>FiniteFilter(v)\<close>.
\<close>

theorem zero_ratio_is_mean_of_sorted:
  "trimmed_mean v (Fin 0) False = Inr (mean (std_sort (filter_finite v)))"
  using trimmed_mean_zero_ratio [of v False] by simp

theorem zero_ratio_is_mean_of_sorted_witness:
  "std_sort (filter_finite [Fin 3, NaN, Fin 1, Fin 2]) = [Fin 1, Fin 2, Fin 3] \<and>
   mean [Fin 1, Fin 2, Fin 3] = Fin 2 \<and>
   trimmed_mean [Fin 3, NaN, Fin 1, Fin 2] (Fin 0) False = Inr (Fin 2)"
proof -
  have s: "std_sort (filter_finite [Fin 3, NaN, Fin 1, Fin 2]) = [Fin 1, Fin 2, Fin 3]"
    by code_simp
  have m: "mean [Fin 1, Fin 2, Fin 3] = Fin 2"
    by code_simp
  show ?thesis
    using zero_ratio_is_mean_of_sorted [of "[Fin 3, NaN, Fin 1, Fin 2]"]
    unfolding s m by (simp add: s m)
qed

text \<open>
  It is not always \<open>Mean(FiniteFilter(v))\<close>, which sums in the order given: double
  addition rounds, so the order matters. On \<open>[2^55, -2^55, 1]\<close> the given order sums to
  \<open>1\<close> and the mean is the double nearest to \<open>1/3\<close>; the ascending order
  \<open>[-2^55, 1, 2^55]\<close> loses the \<open>1\<close> in \<open>-2^55 + 1\<close>, sums to \<open>0\<close>, and \<open>trimmed_mean\<close>
  returns \<open>0\<close>.
\<close>

theorem zero_ratio_mean_counterexample:
  "is_double (Fin (2 ^ 55)) \<and> is_double (Fin (- (2 ^ 55))) \<and> is_double (Fin 1) \<and>
   trimmed_mean [Fin (2 ^ 55), Fin (- (2 ^ 55)), Fin 1] (Fin 0) False = Inr (Fin 0) \<and>
   mean (filter_finite [Fin (2 ^ 55), Fin (- (2 ^ 55)), Fin 1]) =
     Fin (6004799503160661 / 18014398509481984)"
  by code_simp

text \<open>
  Claim C7. The trim ratio is normalized before use: a ratio that is not finite becomes
  \<open>0.0\<close>, a finite ratio below \<open>0\<close> becomes \<open>0\<close>, a finite ratio above \<open>0.5\<close> becomes
  \<open>0.5\<close>, and a ratio in range is kept. Hence \<open>trimmed_mean(v, r, false)\<close> equals
  \<open>trimmed_mean(v, 0.5, false)\<close> for every finite \<open>r > 0.5\<close>; for \<open>r = +\<infinity>\<close>, which is
  treated as \<open>0.0\<close>, the two are equal as well whenever at most \<open>2 ^ 53\<close> finite samples
  remain, both being the mean of all of them.
\<close>

theorem trim_ratio_clamped:
  "(\<not> isfinite r \<longrightarrow> clamp_ratio r = Fin 0) \<and>
   (isfinite r \<and> flt r (Fin 0) \<longrightarrow> clamp_ratio r = Fin 0) \<and>
   (isfinite r \<and> fgt r (Fin (1 / 2)) \<longrightarrow> clamp_ratio r = Fin (1 / 2)) \<and>
   (isfinite r \<and> \<not> flt r (Fin 0) \<and> \<not> fgt r (Fin (1 / 2)) \<longrightarrow> clamp_ratio r = r) \<and>
   (fgt r (Fin (1 / 2)) \<and> (isfinite r \<or> length (filter_finite v) \<le> 2 ^ 53) \<longrightarrow>
      trimmed_mean v r False = trimmed_mean v (Fin (1 / 2)) False)"
proof (intro conjI impI)
  assume "\<not> isfinite r"
  then show "clamp_ratio r = Fin 0" by (rule clamp_ratio_nonfinite)
next
  assume "isfinite r \<and> flt r (Fin 0)"
  then show "clamp_ratio r = Fin 0"
    by (cases r) (simp_all add: clamp_ratio_Fin isfinite_def flt_def isnan_def cls_def valof_def)
next
  assume "isfinite r \<and> fgt r (Fin (1 / 2))"
  then show "clamp_ratio r = Fin (1 / 2)"
    by (cases r) (simp_all add: clamp_ratio_Fin isfinite_def fgt_def flt_def isnan_def cls_def valof_def)
next
  assume "isfinite r \<and> \<not> flt r (Fin 0) \<and> \<not> fgt r (Fin (1 / 2))"
  then show "clamp_ratio r = r"
    by (cases r) (simp_all add: clamp_ratio_Fin isfinite_def fgt_def flt_def isnan_def cls_def valof_def)
next
  assume a: "fgt r (Fin (1 / 2)) \<and> (isfinite r \<or> length (filter_finite v) \<le> 2 ^ 53)"
  show "trimmed_mean v r False = trimmed_mean v (Fin (1 / 2)) False"
  proof (cases "isfinite r")
    case True
    then have "clamp_ratio r = clamp_ratio (Fin (1 / 2))" using a
      by (cases r) (simp_all add: clamp_ratio_Fin isfinite_def fgt_def flt_def isnan_def cls_def valof_def)
    then show ?thesis by (rule trimmed_mean_cong)
  next
    case False
    then have len: "length (filter_finite v) \<le> 2 ^ 53" using a by simp
    have "clamp_ratio r = clamp_ratio (Fin 0)" using False by (simp add: clamp_ratio_nonfinite)
    then have "trimmed_mean v r False = trimmed_mean v (Fin 0) False" by (rule trimmed_mean_cong)
    then show ?thesis
      using trimmed_mean_zero_ratio [of v False] trimmed_mean_half_ratio [OF len, of False] by simp
  qed
qed

theorem trim_ratio_clamped_witness:
  "isfinite (Fin 3) \<and> fgt (Fin 3) (Fin (1 / 2)) \<and> clamp_ratio (Fin 3) = Fin (1 / 2) \<and>
   trimmed_mean [Fin 4, NaN, Fin 1, Fin 2] (Fin 3) False =
     trimmed_mean [Fin 4, NaN, Fin 1, Fin 2] (Fin (1 / 2)) False \<and>
   \<not> isfinite PInf \<and> fgt PInf (Fin (1 / 2)) \<and> clamp_ratio PInf = Fin 0 \<and>
   length (filter_finite [Fin 4, NaN, Fin 1, Fin 2]) \<le> 2 ^ 53 \<and>
   trimmed_mean [Fin 4, NaN, Fin 1, Fin 2] PInf False =
     trimmed_mean [Fin 4, NaN, Fin 1, Fin 2] (Fin (1 / 2)) False \<and>
   isfinite (Fin (- 1)) \<and> flt (Fin (- 1)) (Fin 0) \<and> clamp_ratio (Fin (- 1)) = Fin 0"
proof -
  define V where "V = [Fin 4, NaN, Fin 1, Fin 2]"
  have len: "length (filter_finite V) \<le> 2 ^ 53"
    by (simp add: V_def filter_finite_eq isfinite_def)
  have f3: "isfinite (Fin 3)" "fgt (Fin 3) (Fin (1 / 2))"
    by (simp_all add: isfinite_def fgt_def flt_def isnan_def cls_def valof_def)
  have fi: "\<not> isfinite PInf" "fgt PInf (Fin (1 / 2))"
    by (simp_all add: isfinite_def fgt_def flt_def isnan_def cls_def valof_def)
  have fm: "isfinite (Fin (- 1))" "flt (Fin (- 1)) (Fin 0)"
    by (simp_all add: isfinite_def flt_def isnan_def cls_def valof_def)
  note t3 = trim_ratio_clamped [of "Fin 3" V]
  note ti = trim_ratio_clamped [of PInf V]
  note tm = trim_ratio_clamped [of "Fin (- 1)" V]
  have c3: "clamp_ratio (Fin 3) = Fin (1 / 2)"
    using conjunct1 [OF conjunct2 [OF conjunct2 [OF t3]]] f3 by simp
  have e3: "trimmed_mean V (Fin 3) False = trimmed_mean V (Fin (1 / 2)) False"
    using conjunct2 [OF conjunct2 [OF conjunct2 [OF conjunct2 [OF t3]]]] f3 by simp
  have ci: "clamp_ratio PInf = Fin 0"
    using conjunct1 [OF ti] fi by simp
  have ei: "trimmed_mean V PInf False = trimmed_mean V (Fin (1 / 2)) False"
    using conjunct2 [OF conjunct2 [OF conjunct2 [OF conjunct2 [OF ti]]]] fi len by simp
  have cm: "clamp_ratio (Fin (- 1)) = Fin 0"
    using conjunct1 [OF conjunct2 [OF tm]] fm by simp
  show ?thesis
    unfolding V_def [symmetric]
    by (intro conjI f3 fi fm c3 e3 ci ei cm len)
qed

text \<open>
  Claim C8. In \<open>sorted_weighted_mean\<close> every clipped weight is finite and at least zero.
  When the weights are doubles, the sum of the clipped weights is at least zero (it may
  overflow to the positive infinity), so the fallback test \<open>s \<le> 0\<close> holds exactly when
  \<open>s = 0\<close>; off the fallback path the divisor \<open>s\<close> is strictly positive, hence not zero,
  and every normalized weight lies between 0 and 1.
\<close>

theorem normalized_weights_in_unit_interval:
  "(\<forall>x\<in>set (clip_weights w). isfinite x \<and> fle (Fin 0) x) \<and>
   ((\<forall>x\<in>set w. is_double x) \<longrightarrow>
      (let c = clip_weights w; s = accumulate c (Fin 0) in
       fle (Fin 0) s \<and>
       fle s (Fin 0) = feq s (Fin 0) \<and>
       (\<not> fle s (Fin 0) \<longrightarrow>
          flt (Fin 0) s \<and> \<not> feq s (Fin 0) \<and>
          (\<forall>x\<in>set (normalize_weights c s). fle (Fin 0) x \<and> fle x (Fin 1)))))"
proof (intro conjI impI)
  show "\<forall>x\<in>set (clip_weights w). isfinite x \<and> fle (Fin 0) x"
    using clip_weights_props by blast
next
  assume dbl: "\<forall>x\<in>set w. is_double x"
  define c where "c = clip_weights w"
  define s where "s = accumulate c (Fin 0)"
  have c: "\<forall>x\<in>set c. isfinite x \<and> \<not> flt x (Fin 0) \<and> is_double x"
    using clip_weights_props clip_weights_is_double [OF dbl] unfolding c_def by blast
  have zero: "Fin 0 = PInf \<or> (\<exists>a. Fin 0 = Fin a \<and> 0 \<le> a \<and> rnd a = Fin a)" by simp
  note sum = foldl_fadd_nonneg [OF zero c]
  have good: "s = PInf \<or> (\<exists>a. s = Fin a \<and> 0 \<le> a)"
    and s0: "fle (Fin 0) s" and xs: "\<forall>x\<in>set c. fle x s"
    using sum unfolding s_def accumulate_def by blast+
  have eq: "fle s (Fin 0) = feq s (Fin 0)"
    using good by (auto simp: fle_def feq_def isnan_def cls_def valof_def)
  have nz: "flt (Fin 0) s \<and> \<not> feq s (Fin 0)" if "\<not> fle s (Fin 0)"
    using good that by (auto simp: fle_def flt_def feq_def isnan_def cls_def valof_def)
  have unit: "\<forall>x\<in>set (normalize_weights c s). fle (Fin 0) x \<and> fle x (Fin 1)"
    if "\<not> fle s (Fin 0)"
  proof
    fix y assume "y \<in> set (normalize_weights c s)"
    then obtain x where x: "x \<in> set c" "y = fdiv x s" by (auto simp: normalize_weights_def)
    have "isfinite x" "\<not> flt x (Fin 0)" "fle x s" using c xs x(1) by simp_all
    then show "fle (Fin 0) y \<and> fle y (Fin 1)"
      unfolding x(2) using good that by (intro fdiv_unit_interval)
  qed
  show "let c = clip_weights w; s = accumulate c (Fin 0) in
       fle (Fin 0) s \<and>
       fle s (Fin 0) = feq s (Fin 0) \<and>
       (\<not> fle s (Fin 0) \<longrightarrow>
          flt (Fin 0) s \<and> \<not> feq s (Fin 0) \<and>
          (\<forall>x\<in>set (normalize_weights c s). fle (Fin 0) x \<and> fle x (Fin 1)))"
    unfolding Let_def c_def [symmetric] s_def [symmetric]
    using s0 eq nz unit by blast
qed
theorem normalized_weights_in_unit_interval_witness:
  "list_all is_double [Fin 1, Fin 3, Fin (- 2), NaN, NegZero] \<and>
   \<not> fle (accumulate (clip_weights [Fin 1, Fin 3, Fin (- 2), NaN, NegZero]) (Fin 0)) (Fin 0) \<and>
   list_all (\<lambda>x. fle (Fin 0) x \<and> fle x (Fin 1))
     (normalize_weights (clip_weights [Fin 1, Fin 3, Fin (- 2), NaN, NegZero])
       (accumulate (clip_weights [Fin 1, Fin 3, Fin (- 2), NaN, NegZero]) (Fin 0)))"
proof -
  have h1: "list_all is_double [Fin 1, Fin 3, Fin (- 2), NaN, NegZero]"
    by code_simp
  have h2: "\<not> fle (accumulate (clip_weights [Fin 1, Fin 3, Fin (- 2), NaN, NegZero]) (Fin 0)) (Fin 0)"
    by code_simp
  show ?thesis
    using normalized_weights_in_unit_interval [of "[Fin 1, Fin 3, Fin (- 2), NaN, NegZero]"] h1 h2
    unfolding Let_def list_all_iff by blast
qed

text \<open>
  Claim C9. When the summation loop of \<open>trimmed_mean\<close> is reached, that is when
  \<open>2 * k < n\<close> for the size \<open>n\<close> of the vector, it ends with \<open>cnt = n - 2 * k\<close>, which is
  at least 1: the guard \<^verbatim>\<open>cnt > 0 ? cnt : 1\<close> returns \<open>cnt\<close> itself, and the sum is the
  sum of the \<open>cnt\<close> elements from position \<open>k\<close> on. The loop reads inside the vector only.
\<close>

theorem trim_loop_count:
  assumes "2 * k < length v"
  shows "\<exists>s cnt. trim_loop v (length v) k k (Fin 0) 0 = Inr (s, cnt) \<and>
           cnt = length v - 2 * k \<and> 1 \<le> cnt \<and> (if 0 < cnt then cnt else 1) = cnt \<and>
           s = accumulate (take cnt (drop k v)) (Fin 0)"
  using assms trim_loop_slice [OF assms] by simp

theorem trim_loop_count_witness:
  "2 * 1 < length [Fin 1, Fin 2, Fin 4, Fin 8] \<and>
   trim_loop [Fin 1, Fin 2, Fin 4, Fin 8] 4 1 1 (Fin 0) 0 = Inr (Fin 6, 2)"
proof -
  have h: "2 * 1 < length [Fin 1, Fin 2, Fin (4::rat), Fin 8]" by simp
  have "rnd (0 + 2) = Fin 2" by code_simp
  moreover have "rnd (2 + 4) = Fin 6" by code_simp
  ultimately show ?thesis using trim_loop_count [OF h]
    by (simp add: accumulate_def fadd_def isnan_def isfinite_def valof_def eval_nat_numeral)
qed

text \<open>
  Claim C10. With \<open>assume_sorted\<close> set, \<open>trimmed_mean\<close> is total and never fails, whether
  or not its input is sorted: when a finite value remains it returns the mean of the
  filtered sequence, in the order given, if \<open>2 * k \<ge> n\<close>, and otherwise the sum of the
  elements at the positions \<open>k, ..., n - k - 1\<close> of that sequence divided by their number.
  It raises nothing and reads no element outside the vector; \<open>llround\<close> is applied to a
  finite product (\<open>trim_count_no_overflow\<close>).
\<close>

theorem trimmed_mean_assume_sorted_total:
  "(\<exists>d. trimmed_mean v0 r True = Inr d) \<and>
   (filter_finite v0 \<noteq> [] \<longrightarrow>
    trimmed_mean v0 r True =
     (let v = filter_finite v0; n = length v; k = trim_count (clamp_ratio r) n
      in if n \<le> 2 * k then Inr (mean v)
         else Inr (fdiv (accumulate (take (n - 2 * k) (drop k v)) (Fin 0))
                        (of_size (n - 2 * k)))))"
proof (cases "filter_finite v0 = []")
  case True
  then show ?thesis by (simp add: trimmed_mean_def)
next
  case False
  show ?thesis
    unfolding trimmed_mean_unfold [OF False]
    by (simp add: Let_def)
qed

theorem trimmed_mean_assume_sorted_total_witness:
  "filter_finite [Fin 3, PInf, Fin 1, Fin 2] \<noteq> [] \<and>
   trimmed_mean [Fin 3, PInf, Fin 1, Fin 2] (Fin (1 / 4)) True = Inr (Fin 1)"
proof -
  define V where "V = [Fin 3, PInf, Fin 1, Fin 2]"
  have ne: "filter_finite V \<noteq> []" unfolding V_def by code_simp
  have len: "length (filter_finite V) = 3" unfolding V_def by code_simp
  have k: "trim_count (clamp_ratio (Fin (1 / 4))) 3 = 1"
    by code_simp
  have sl: "fdiv (accumulate (take (Suc 0) (drop (Suc 0) (filter_finite V))) (Fin 0)) (of_size (Suc 0)) = Fin 1"
    unfolding V_def by code_simp
  have "trimmed_mean V (Fin (1 / 4)) True = Inr (Fin 1)"
    using trimmed_mean_assume_sorted_total [of V "Fin (1 / 4)"] ne
    by (simp add: Let_def len k sl)
  then show ?thesis using ne unfolding V_def by simp
qed

end
